theory Spec2Isabelle
  imports Complex_Main "HOL-Library.Word"
begin

section \<open>Python values, errors and byte windows\<close>

text \<open>
  The decoder of \<^verbatim>\<open>uamqp/_decode.py\<close> works on a \<^verbatim>\<open>memoryview\<close> of bytes. A window is
  a list of 8-bit words: \<^verbatim>\<open>buffer[i]\<close> raises IndexError out of range, a slice
  \<^verbatim>\<open>buffer[a:b]\<close> is clamped and never raises (\<open>take\<close>, \<open>drop\<close>).
\<close>

type_synonym byte = "8 word"
type_synonym buffer = "byte list"

text \<open>
  A Python float: not-a-number, an infinity with its sign bit, or a finite number given by
  its sign bit and its magnitude.
\<close>

datatype pyfloat = NaN | Infinity bool | Finite bool rat

text \<open>The Python objects the decoder returns.\<close>

datatype val =
    PyNone
  | PyBool bool
  | PyInt int
  | PyFloat pyfloat
  | PyBytes "byte list"
  | PyStr string
  | PyList "val list"
  | PyDict "(val \<times> val) list"

text \<open>
  The exceptions that leave the decoder and the link. \<open>TypeError_not_callable\<close> is the
  TypeError of calling \<^verbatim>\<open>None\<close> (an empty slot of the dispatch table),
  \<open>TypeError_unhashable\<close> the TypeError of a list or dict used as a dict key,
  \<open>TypeError_not_iterable\<close> the TypeError of \<^verbatim>\<open>dict.update(None)\<close>,
  \<open>StructError\<close> is \<^verbatim>\<open>struct.error\<close>, \<open>AttributeError\<close> the error of
  calling \<^verbatim>\<open>append\<close> on an object that has none, \<open>AssertionError\<close> that of a
  failed \<^verbatim>\<open>assert\<close>. \<open>OutOfFuel\<close> is not a Python exception: it is the value of the
  model when the bound on the nesting depth is used up (see \<open>call\<close> below).
\<close>

datatype error =
    IndexError
  | StructError
  | TypeError_not_callable
  | TypeError_unhashable
  | ValueError string
  | TypeError_not_iterable
  | AttributeError
  | AssertionError
  | OutOfFuel

type_synonym result = "error + (buffer \<times> val)"
type_synonym dict = "(val \<times> val) list"

subsection \<open>Dictionaries\<close>

text \<open>
  A dict is an association list in insertion order. Keys are compared as Python compares
  them: \<^verbatim>\<open>True == 1 == 1.0\<close>, a NaN equals nothing, a list or a dict is not hashable.
\<close>

datatype num = NumNaN | NumInf bool | NumRat rat

fun numeric :: "val \<Rightarrow> num option" where
  "numeric (PyBool b) = Some (NumRat (if b then 1 else 0))"
| "numeric (PyInt i) = Some (NumRat (of_int i))"
| "numeric (PyFloat NaN) = Some NumNaN"
| "numeric (PyFloat (Infinity s)) = Some (NumInf s)"
| "numeric (PyFloat (Finite s r)) = Some (NumRat (if s then - r else r))"
| "numeric v = None"

definition py_eq :: "val \<Rightarrow> val \<Rightarrow> bool" where
  "py_eq a b =
     (case numeric a of
        Some x \<Rightarrow> (case numeric b of Some y \<Rightarrow> x \<noteq> NumNaN \<and> x = y | None \<Rightarrow> False)
      | None \<Rightarrow> (case numeric b of Some y \<Rightarrow> False | None \<Rightarrow> a = b))"

fun hashable :: "val \<Rightarrow> bool" where
  "hashable (PyList xs) = False"
| "hashable (PyDict kvs) = False"
| "hashable v = True"

fun dict_store :: "dict \<Rightarrow> val \<Rightarrow> val \<Rightarrow> dict" where
  "dict_store [] key value = [(key, value)]"
| "dict_store ((k, v) # kvs) key value =
     (if py_eq k key then (k, value) # kvs else (k, v) # dict_store kvs key value)"

text \<open>\<^verbatim>\<open>values[key] = value\<close>\<close>

definition dict_setitem :: "dict \<Rightarrow> val \<Rightarrow> val \<Rightarrow> error + dict" where
  "dict_setitem values key value =
     (if hashable key then Inr (dict_store values key value) else Inl TypeError_unhashable)"

fun dict_get :: "dict \<Rightarrow> val \<Rightarrow> val option" where
  "dict_get [] key = None"
| "dict_get ((k, v) # kvs) key = (if py_eq k key then Some v else dict_get kvs key)"

subsection \<open>\<^verbatim>\<open>struct.Struct('>...').unpack\<close>\<close>

definition be_uint :: "buffer \<Rightarrow> nat" where
  "be_uint bs = foldl (\<lambda>acc b. acc * 256 + unat b) 0 bs"

text \<open>
  \<^verbatim>\<open>unpack\<close> raises \<^verbatim>\<open>struct.error\<close> unless it is given exactly the bytes of its
  format; the decoder always passes a slice, which is shorter when the window is.
\<close>

definition unpack_unsigned :: "nat \<Rightarrow> buffer \<Rightarrow> error + int" where
  "unpack_unsigned n bs =
     (if length bs \<noteq> n then Inl StructError else Inr (int (be_uint bs)))"

definition unpack_signed :: "nat \<Rightarrow> buffer \<Rightarrow> error + int" where
  "unpack_signed n bs =
     (if length bs \<noteq> n then Inl StructError
      else if be_uint bs < 2 ^ (8 * n - 1) then Inr (int (be_uint bs))
      else Inr (int (be_uint bs) - 2 ^ (8 * n)))"

text \<open>IEEE 754 binary32 and binary64, from the exponent width and the mantissa width.\<close>

definition ieee :: "nat \<Rightarrow> nat \<Rightarrow> nat \<Rightarrow> pyfloat" where
  "ieee ebits mbits n =
     (let sign = ((n div 2 ^ (ebits + mbits)) mod 2 = 1);
          e = (n div 2 ^ mbits) mod 2 ^ ebits;
          m = n mod 2 ^ mbits;
          bias = 2 ^ (ebits - 1) - 1
      in if e = 2 ^ ebits - 1 then (if m = 0 then Infinity sign else NaN)
         else if e = 0 then Finite sign (of_nat m / 2 ^ (bias - 1 + mbits))
         else Finite sign (of_nat (2 ^ mbits + m) * 2 ^ e / 2 ^ (bias + mbits)))"

definition unpack_float :: "nat \<Rightarrow> nat \<Rightarrow> nat \<Rightarrow> buffer \<Rightarrow> error + pyfloat" where
  "unpack_float n ebits mbits bs =
     (if length bs \<noteq> n then Inl StructError else Inr (ieee ebits mbits (be_uint bs)))"

section \<open>The type codec (\<^verbatim>\<open>uamqp/_decode.py\<close>)\<close>

definition COMPOSITES :: "nat \<Rightarrow> string option" where
  "COMPOSITES = map_of
     [(35, ''received''),
      (36, ''accepted''),
      (37, ''rejected''),
      (38, ''released''),
      (39, ''modified'')]"

subsection \<open>Fixed-width decoders\<close>

definition decode_null :: "buffer \<Rightarrow> result" where
  "decode_null buffer = Inr (buffer, PyNone)"

definition decode_true :: "buffer \<Rightarrow> result" where
  "decode_true buffer = Inr (buffer, PyBool True)"

definition decode_false :: "buffer \<Rightarrow> result" where
  "decode_false buffer = Inr (buffer, PyBool False)"

definition decode_zero :: "buffer \<Rightarrow> result" where
  "decode_zero buffer = Inr (buffer, PyInt 0)"

definition decode_empty :: "buffer \<Rightarrow> result" where
  "decode_empty buffer = Inr (buffer, PyList [])"

definition decode_boolean :: "buffer \<Rightarrow> result" where
  "decode_boolean buffer = Inr (drop 1 buffer, PyBool (take 1 buffer = [1]))"

definition decode_ubyte :: "buffer \<Rightarrow> result" where
  "decode_ubyte buffer =
     (if buffer = [] then Inl IndexError else Inr (drop 1 buffer, PyInt (uint (buffer ! 0))))"

definition decode_ushort :: "buffer \<Rightarrow> result" where
  "decode_ushort buffer =
     (case unpack_unsigned 2 (take 2 buffer) of
        Inl e \<Rightarrow> Inl e | Inr v \<Rightarrow> Inr (drop 2 buffer, PyInt v))"

definition decode_uint_small :: "buffer \<Rightarrow> result" where
  "decode_uint_small buffer =
     (if buffer = [] then Inl IndexError else Inr (drop 1 buffer, PyInt (uint (buffer ! 0))))"

definition decode_uint_large :: "buffer \<Rightarrow> result" where
  "decode_uint_large buffer =
     (case unpack_unsigned 4 (take 4 buffer) of
        Inl e \<Rightarrow> Inl e | Inr v \<Rightarrow> Inr (drop 4 buffer, PyInt v))"

definition decode_ulong_small :: "buffer \<Rightarrow> result" where
  "decode_ulong_small buffer =
     (if buffer = [] then Inl IndexError else Inr (drop 1 buffer, PyInt (uint (buffer ! 0))))"

definition decode_ulong_large :: "buffer \<Rightarrow> result" where
  "decode_ulong_large buffer =
     (case unpack_unsigned 8 (take 8 buffer) of
        Inl e \<Rightarrow> Inl e | Inr v \<Rightarrow> Inr (drop 8 buffer, PyInt v))"

definition decode_byte :: "buffer \<Rightarrow> result" where
  "decode_byte buffer =
     (case unpack_signed 1 (take 1 buffer) of
        Inl e \<Rightarrow> Inl e | Inr v \<Rightarrow> Inr (drop 1 buffer, PyInt v))"

definition decode_short :: "buffer \<Rightarrow> result" where
  "decode_short buffer =
     (case unpack_signed 2 (take 2 buffer) of
        Inl e \<Rightarrow> Inl e | Inr v \<Rightarrow> Inr (drop 2 buffer, PyInt v))"

definition decode_int_small :: "buffer \<Rightarrow> result" where
  "decode_int_small buffer =
     (case unpack_signed 1 (take 1 buffer) of
        Inl e \<Rightarrow> Inl e | Inr v \<Rightarrow> Inr (drop 1 buffer, PyInt v))"

definition decode_int_large :: "buffer \<Rightarrow> result" where
  "decode_int_large buffer =
     (case unpack_signed 4 (take 4 buffer) of
        Inl e \<Rightarrow> Inl e | Inr v \<Rightarrow> Inr (drop 4 buffer, PyInt v))"

definition decode_long_small :: "buffer \<Rightarrow> result" where
  "decode_long_small buffer =
     (case unpack_signed 1 (take 1 buffer) of
        Inl e \<Rightarrow> Inl e | Inr v \<Rightarrow> Inr (drop 1 buffer, PyInt v))"

definition decode_long_large :: "buffer \<Rightarrow> result" where
  "decode_long_large buffer =
     (case unpack_signed 8 (take 8 buffer) of
        Inl e \<Rightarrow> Inl e | Inr v \<Rightarrow> Inr (drop 8 buffer, PyInt v))"

definition decode_float :: "buffer \<Rightarrow> result" where
  "decode_float buffer =
     (case unpack_float 4 8 23 (take 4 buffer) of
        Inl e \<Rightarrow> Inl e | Inr v \<Rightarrow> Inr (drop 4 buffer, PyFloat v))"

definition decode_double :: "buffer \<Rightarrow> result" where
  "decode_double buffer =
     (case unpack_float 8 11 52 (take 8 buffer) of
        Inl e \<Rightarrow> Inl e | Inr v \<Rightarrow> Inr (drop 8 buffer, PyFloat v))"

definition decode_timestamp :: "buffer \<Rightarrow> result" where
  "decode_timestamp buffer =
     (case unpack_signed 8 (take 8 buffer) of
        Inl e \<Rightarrow> Inl e | Inr v \<Rightarrow> Inr (drop 8 buffer, PyInt v))"

text \<open>
  \<^verbatim>\<open>uuid.UUID(bytes=buffer[:16])\<close>: the constructor raises ValueError unless it is given
  16 bytes, and then asserts that its argument is a \<^verbatim>\<open>bytes\<close> object. The slice of a
  \<^verbatim>\<open>memoryview\<close> is a \<^verbatim>\<open>memoryview\<close>, so on a window of 16 bytes or more the
  assertion fails (the interpreter is taken to run with assertions on, as it does by
  default) and no UUID is ever returned.
\<close>

definition decode_uuid :: "buffer \<Rightarrow> result" where
  "decode_uuid buffer =
     (if length (take 16 buffer) \<noteq> 16 then Inl (ValueError ''bytes is not a 16-char string'')
      else Inl AssertionError)"

subsection \<open>Binary, string and symbol\<close>

text \<open>\<^verbatim>\<open>x.tobytes() or None\<close>: the empty bytes object is falsy.\<close>

definition tobytes_or_None :: "buffer \<Rightarrow> val" where
  "tobytes_or_None bs = (if bs = [] then PyNone else PyBytes bs)"

definition decode_binary_small :: "buffer \<Rightarrow> result" where
  "decode_binary_small buffer =
     (if buffer = [] then Inl IndexError
      else let length' = unat (buffer ! 0)
           in Inr (drop (1 + length') buffer, tobytes_or_None (take length' (drop 1 buffer))))"

definition decode_binary_large :: "buffer \<Rightarrow> result" where
  "decode_binary_large buffer =
     (case unpack_unsigned 4 (take 4 buffer) of
        Inl e \<Rightarrow> Inl e
      | Inr length' \<Rightarrow>
          Inr (drop (4 + nat length') buffer,
               tobytes_or_None (take (nat length') (drop 4 buffer))))"

definition decode_string_small :: "buffer \<Rightarrow> result" where
  "decode_string_small buffer =
     (if buffer = [] then Inl IndexError
      else let length' = unat (buffer ! 0)
           in Inr (drop (1 + length') buffer, tobytes_or_None (take length' (drop 1 buffer))))"

definition decode_string_large :: "buffer \<Rightarrow> result" where
  "decode_string_large buffer =
     (case unpack_unsigned 4 (take 4 buffer) of
        Inl e \<Rightarrow> Inl e
      | Inr length' \<Rightarrow>
          Inr (drop (4 + nat length') buffer,
               tobytes_or_None (take (nat length') (drop 4 buffer))))"

definition decode_symbol_small :: "buffer \<Rightarrow> result" where
  "decode_symbol_small buffer =
     (if buffer = [] then Inl IndexError
      else let length' = unat (buffer ! 0)
           in Inr (drop (1 + length') buffer, tobytes_or_None (take length' (drop 1 buffer))))"

definition decode_symbol_large :: "buffer \<Rightarrow> result" where
  "decode_symbol_large buffer =
     (case unpack_unsigned 4 (take 4 buffer) of
        Inl e \<Rightarrow> Inl e
      | Inr length' \<Rightarrow>
          Inr (drop (4 + nat length') buffer,
               tobytes_or_None (take (nat length') (drop 4 buffer))))"

subsection \<open>Lists, maps, arrays and described values\<close>

text \<open>
  The compound decoders call back into the dispatch table. They take that call,
  \<^verbatim>\<open>_DECODE_BY_CONSTRUCTOR[c](window)\<close>, as the parameter \<open>dec\<close>.
\<close>

type_synonym decoder = "byte \<Rightarrow> buffer \<Rightarrow> result"

text \<open>
  \<^verbatim>\<open>for _ in range(count): buffer, value = _DECODE_BY_CONSTRUCTOR[buffer[0]](buffer[1:]);
  values.append(value)\<close>
\<close>

fun decode_values :: "decoder \<Rightarrow> nat \<Rightarrow> buffer \<Rightarrow> val list \<Rightarrow> error + (buffer \<times> val list)" where
  "decode_values dec 0 buffer values = Inr (buffer, values)"
| "decode_values dec (Suc n) buffer values =
     (if buffer = [] then Inl IndexError
      else case dec (buffer ! 0) (drop 1 buffer) of
             Inl e \<Rightarrow> Inl e
           | Inr (buffer', value) \<Rightarrow> decode_values dec n buffer' (values @ [value]))"

definition decode_list_small :: "decoder \<Rightarrow> buffer \<Rightarrow> result" where
  "decode_list_small dec buffer =
     (if length buffer < 2 then Inl IndexError
      else case decode_values dec (unat (buffer ! 1)) (drop 2 buffer) [] of
             Inl e \<Rightarrow> Inl e
           | Inr (buffer', values) \<Rightarrow> Inr (buffer', PyList values))"

definition decode_list_large :: "decoder \<Rightarrow> buffer \<Rightarrow> result" where
  "decode_list_large dec buffer =
     (case unpack_unsigned 4 (take 4 (drop 4 buffer)) of
        Inl e \<Rightarrow> Inl e
      | Inr count \<Rightarrow>
          (case decode_values dec (nat count) (drop 8 buffer) [] of
             Inl e \<Rightarrow> Inl e
           | Inr (buffer', values) \<Rightarrow> Inr (buffer', PyList values)))"

text \<open>
  \<^verbatim>\<open>for _ in range(0, count, 2)\<close>: the loop variable runs over 0, 2, 4, ... while it is
  below \<open>count\<close>; each round decodes a key, then a value, and stores the pair.
\<close>

function decode_pairs :: "decoder \<Rightarrow> nat \<Rightarrow> nat \<Rightarrow> buffer \<Rightarrow> dict \<Rightarrow> error + (buffer \<times> dict)" where
  "decode_pairs dec i count buffer values =
     (if i < count then
        (if buffer = [] then Inl IndexError
         else case dec (buffer ! 0) (drop 1 buffer) of
           Inl e \<Rightarrow> Inl e
         | Inr (buffer1, key) \<Rightarrow>
            (if buffer1 = [] then Inl IndexError
             else case dec (buffer1 ! 0) (drop 1 buffer1) of
               Inl e \<Rightarrow> Inl e
             | Inr (buffer2, value) \<Rightarrow>
                (case dict_setitem values key value of
                   Inl e \<Rightarrow> Inl e
                 | Inr values' \<Rightarrow> decode_pairs dec (i + 2) count buffer2 values')))
      else Inr (buffer, values))"
  by pat_completeness auto
termination
  by (relation "measure (\<lambda>(dec, i, count, buffer, values). count - i)") auto

declare decode_pairs.simps [simp del]

definition decode_map_small :: "decoder \<Rightarrow> buffer \<Rightarrow> result" where
  "decode_map_small dec buffer =
     (if length buffer < 2 then Inl IndexError
      else case decode_pairs dec 0 (unat (buffer ! 1)) (drop 2 buffer) [] of
             Inl e \<Rightarrow> Inl e
           | Inr (buffer', values) \<Rightarrow> Inr (buffer', PyDict values))"

definition decode_map_large :: "decoder \<Rightarrow> buffer \<Rightarrow> result" where
  "decode_map_large dec buffer =
     (case unpack_unsigned 4 (take 4 (drop 4 buffer)) of
        Inl e \<Rightarrow> Inl e
      | Inr count \<Rightarrow>
          (case decode_pairs dec 0 (nat count) (drop 8 buffer) [] of
             Inl e \<Rightarrow> Inl e
           | Inr (buffer', values) \<Rightarrow> Inr (buffer', PyDict values)))"

text \<open>
  \<^verbatim>\<open>for _ in range(count): buffer, value = _DECODE_BY_CONSTRUCTOR[subconstructor](buffer)\<close>:
  no constructor byte is read per element.
\<close>

fun decode_elements :: "decoder \<Rightarrow> byte \<Rightarrow> nat \<Rightarrow> buffer \<Rightarrow> val list \<Rightarrow> error + (buffer \<times> val list)" where
  "decode_elements dec subconstructor 0 buffer values = Inr (buffer, values)"
| "decode_elements dec subconstructor (Suc n) buffer values =
     (case dec subconstructor buffer of
        Inl e \<Rightarrow> Inl e
      | Inr (buffer', value) \<Rightarrow> decode_elements dec subconstructor n buffer' (values @ [value]))"

definition decode_array_small :: "decoder \<Rightarrow> buffer \<Rightarrow> result" where
  "decode_array_small dec buffer =
     (if length buffer < 3 then Inl IndexError
      else case decode_elements dec (buffer ! 2) (unat (buffer ! 1)) (drop 3 buffer) [] of
             Inl e \<Rightarrow> Inl e
           | Inr (buffer', values) \<Rightarrow> Inr (buffer', PyList values))"

definition decode_array_large :: "decoder \<Rightarrow> buffer \<Rightarrow> result" where
  "decode_array_large dec buffer =
     (case unpack_unsigned 4 (take 4 (drop 4 buffer)) of
        Inl e \<Rightarrow> Inl e
      | Inr count \<Rightarrow>
          (if length buffer < 9 then Inl IndexError
           else case decode_elements dec (buffer ! 8) (nat count) (drop 9 buffer) [] of
                  Inl e \<Rightarrow> Inl e
                | Inr (buffer', values) \<Rightarrow> Inr (buffer', PyList values)))"

text \<open>
  \<^verbatim>\<open>_decode_described\<close> rebinds \<^verbatim>\<open>buffer\<close> to the window left by the body before it
  reads \<^verbatim>\<open>buffer[1]\<close>: the byte looked up in \<^verbatim>\<open>_COMPOSITES\<close> is byte 1 of the
  remaining window. The IndexError of that read and the KeyError of the lookup are caught.
\<close>

definition decode_described :: "decoder \<Rightarrow> buffer \<Rightarrow> result" where
  "decode_described dec buffer =
     (if length buffer < 3 then Inl IndexError
      else case dec (buffer ! 2) (drop 3 buffer) of
             Inl e \<Rightarrow> Inl e
           | Inr (buffer', value) \<Rightarrow>
               (if length buffer' < 2 then Inr (buffer', value)
                else case COMPOSITES (unat (buffer' ! 1)) of
                       None \<Rightarrow> Inr (buffer', value)
                     | Some composite_type \<Rightarrow>
                         Inr (buffer', PyDict [(PyStr composite_type, value)])))"

subsection \<open>The dispatch table\<close>

text \<open>
  \<^verbatim>\<open>_DECODE_BY_CONSTRUCTOR = [None] * 256\<close>, then one assignment per supported format
  code.
\<close>

definition DECODE_BY_CONSTRUCTOR :: "decoder \<Rightarrow> (buffer \<Rightarrow> result) option list" where
  "DECODE_BY_CONSTRUCTOR dec = (replicate 256 None)
     [0 := Some (decode_described dec),
      64 := Some decode_null,
      65 := Some decode_true,
      66 := Some decode_false,
      67 := Some decode_zero,
      68 := Some decode_zero,
      69 := Some decode_empty,
      80 := Some decode_ubyte,
      81 := Some decode_byte,
      82 := Some decode_uint_small,
      83 := Some decode_ulong_small,
      84 := Some decode_int_small,
      85 := Some decode_long_small,
      86 := Some decode_boolean,
      96 := Some decode_ushort,
      97 := Some decode_short,
      112 := Some decode_uint_large,
      113 := Some decode_int_large,
      114 := Some decode_float,
      128 := Some decode_ulong_large,
      129 := Some decode_long_large,
      130 := Some decode_double,
      131 := Some decode_timestamp,
      152 := Some decode_uuid,
      160 := Some decode_binary_small,
      161 := Some decode_string_small,
      163 := Some decode_symbol_small,
      176 := Some decode_binary_large,
      177 := Some decode_string_large,
      179 := Some decode_symbol_large,
      192 := Some (decode_list_small dec),
      193 := Some (decode_map_small dec),
      208 := Some (decode_list_large dec),
      209 := Some (decode_map_large dec),
      224 := Some (decode_array_small dec),
      240 := Some (decode_array_large dec)]"

text \<open>
  \<open>call d c window\<close> is \<^verbatim>\<open>_DECODE_BY_CONSTRUCTOR[c](window)\<close>, where \<open>d\<close> bounds the
  depth to which decoders may call back into the table. An empty slot holds \<^verbatim>\<open>None\<close>,
  and calling it raises TypeError.
\<close>

fun call :: "nat \<Rightarrow> decoder" where
  "call 0 c buffer = Inl OutOfFuel"
| "call (Suc d) c buffer =
     (case DECODE_BY_CONSTRUCTOR (call d) ! unat c of
        None \<Rightarrow> Inl TypeError_not_callable
      | Some decode \<Rightarrow> decode buffer)"

subsection \<open>The decoders never lengthen the window\<close>

text \<open>
  Every decoder returns a suffix of its window. The loop of \<^verbatim>\<open>decode_payload\<close> ends
  for that reason.
\<close>

lemma table_lookup:
  "n < 256 \<Longrightarrow> DECODE_BY_CONSTRUCTOR dec ! n =
     (if n = 240 then Some (decode_array_large dec) else
      if n = 224 then Some (decode_array_small dec) else
      if n = 209 then Some (decode_map_large dec) else
      if n = 208 then Some (decode_list_large dec) else
      if n = 193 then Some (decode_map_small dec) else
      if n = 192 then Some (decode_list_small dec) else
      if n = 179 then Some decode_symbol_large else
      if n = 177 then Some decode_string_large else
      if n = 176 then Some decode_binary_large else
      if n = 163 then Some decode_symbol_small else
      if n = 161 then Some decode_string_small else
      if n = 160 then Some decode_binary_small else
      if n = 152 then Some decode_uuid else
      if n = 131 then Some decode_timestamp else
      if n = 130 then Some decode_double else
      if n = 129 then Some decode_long_large else
      if n = 128 then Some decode_ulong_large else
      if n = 114 then Some decode_float else
      if n = 113 then Some decode_int_large else
      if n = 112 then Some decode_uint_large else
      if n = 97 then Some decode_short else
      if n = 96 then Some decode_ushort else
      if n = 86 then Some decode_boolean else
      if n = 85 then Some decode_long_small else
      if n = 84 then Some decode_int_small else
      if n = 83 then Some decode_ulong_small else
      if n = 82 then Some decode_uint_small else
      if n = 81 then Some decode_byte else
      if n = 80 then Some decode_ubyte else
      if n = 69 then Some decode_empty else
      if n = 68 then Some decode_zero else
      if n = 67 then Some decode_zero else
      if n = 66 then Some decode_false else
      if n = 65 then Some decode_true else
      if n = 64 then Some decode_null else
      if n = 0 then Some (decode_described dec) else None)"
  by (simp add: DECODE_BY_CONSTRUCTOR_def nth_list_update)


lemma unat_byte_less: "unat (c :: byte) < 256"
  using unsigned_less [of c, where 'a = nat] by simp

lemma call_pos: "0 < d \<Longrightarrow> call d c buffer =
     (case DECODE_BY_CONSTRUCTOR (call (d - 1)) ! unat c of
        None \<Rightarrow> Inl TypeError_not_callable
      | Some decode \<Rightarrow> decode buffer)"
  by (cases d) simp_all

definition shrinking :: "decoder \<Rightarrow> bool" where
  "shrinking dec = (\<forall>c b b' v. dec c b = Inr (b', v) \<longrightarrow> length b' \<le> length b)"

lemma shrinkingD: "shrinking dec \<Longrightarrow> dec c b = Inr (b', v) \<Longrightarrow> length b' \<le> length b"
  unfolding shrinking_def by blast

lemma decode_values_length:
  "shrinking dec \<Longrightarrow> decode_values dec n b vs = Inr (b', vs') \<Longrightarrow> length b' \<le> length b"
proof (induction n arbitrary: b vs)
  case 0
  then show ?case by simp
next
  case (Suc n)
  from Suc.prems(2) obtain b1 v1 where ne: "b \<noteq> []"
    and d1: "dec (b ! 0) (drop 1 b) = Inr (b1, v1)"
    and rest: "decode_values dec n b1 (vs @ [v1]) = Inr (b', vs')"
    by (auto split: if_splits sum.splits)
  from Suc.IH [OF Suc.prems(1) rest] shrinkingD [OF Suc.prems(1) d1]
  show ?case by simp
qed

lemma decode_elements_length:
  "shrinking dec \<Longrightarrow> decode_elements dec s n b vs = Inr (b', vs') \<Longrightarrow> length b' \<le> length b"
proof (induction n arbitrary: b vs)
  case 0
  then show ?case by simp
next
  case (Suc n)
  from Suc.prems(2) obtain b1 v1 where d1: "dec s b = Inr (b1, v1)"
    and rest: "decode_elements dec s n b1 (vs @ [v1]) = Inr (b', vs')"
    by (auto split: sum.splits)
  from Suc.IH [OF Suc.prems(1) rest] shrinkingD [OF Suc.prems(1) d1]
  show ?case by simp
qed

lemma decode_pairs_length:
  "shrinking dec \<Longrightarrow> decode_pairs dec i n b kvs = Inr (b', kvs') \<Longrightarrow> length b' \<le> length b"
proof (induction dec i n b kvs rule: decode_pairs.induct)
  case (1 dec i count buffer kvs)
  show ?case
  proof (cases "i < count")
    case False
    with "1.prems"(2) show ?thesis by (simp add: decode_pairs.simps)
  next
    case True
    with "1.prems"(2) obtain b1 k b2 v kvs1 where ne: "buffer \<noteq> []"
      and d1: "dec (buffer ! 0) (drop 1 buffer) = Inr (b1, k)"
      and ne1: "b1 \<noteq> []"
      and d2: "dec (b1 ! 0) (drop 1 b1) = Inr (b2, v)"
      and st: "dict_setitem kvs k v = Inr kvs1"
      and rest: "decode_pairs dec (i + 2) count b2 kvs1 = Inr (b', kvs')"
      by (subst (asm) decode_pairs.simps) (auto split: if_splits sum.splits)
    have "length b' \<le> length b2"
      using "1.IH" [OF True ne d1 refl ne1 d2 refl st "1.prems"(1) rest] .
    with shrinkingD [OF "1.prems"(1) d1] shrinkingD [OF "1.prems"(1) d2]
    show ?thesis by simp
  qed
qed

lemma unpack_unsigned_Inr: "unpack_unsigned n bs = Inr v \<Longrightarrow> length bs = n \<and> 0 \<le> v"
  by (auto simp: unpack_unsigned_def split: if_splits)

lemma leaf_shrink:
  "decode_null b = Inr (b', v) \<Longrightarrow> length b' \<le> length b"
  "decode_true b = Inr (b', v) \<Longrightarrow> length b' \<le> length b"
  "decode_false b = Inr (b', v) \<Longrightarrow> length b' \<le> length b"
  "decode_zero b = Inr (b', v) \<Longrightarrow> length b' \<le> length b"
  "decode_empty b = Inr (b', v) \<Longrightarrow> length b' \<le> length b"
  "decode_boolean b = Inr (b', v) \<Longrightarrow> length b' \<le> length b"
  "decode_ubyte b = Inr (b', v) \<Longrightarrow> length b' \<le> length b"
  "decode_ushort b = Inr (b', v) \<Longrightarrow> length b' \<le> length b"
  "decode_uint_small b = Inr (b', v) \<Longrightarrow> length b' \<le> length b"
  "decode_uint_large b = Inr (b', v) \<Longrightarrow> length b' \<le> length b"
  "decode_ulong_small b = Inr (b', v) \<Longrightarrow> length b' \<le> length b"
  "decode_ulong_large b = Inr (b', v) \<Longrightarrow> length b' \<le> length b"
  "decode_byte b = Inr (b', v) \<Longrightarrow> length b' \<le> length b"
  "decode_short b = Inr (b', v) \<Longrightarrow> length b' \<le> length b"
  "decode_int_small b = Inr (b', v) \<Longrightarrow> length b' \<le> length b"
  "decode_int_large b = Inr (b', v) \<Longrightarrow> length b' \<le> length b"
  "decode_long_small b = Inr (b', v) \<Longrightarrow> length b' \<le> length b"
  "decode_long_large b = Inr (b', v) \<Longrightarrow> length b' \<le> length b"
  "decode_float b = Inr (b', v) \<Longrightarrow> length b' \<le> length b"
  "decode_double b = Inr (b', v) \<Longrightarrow> length b' \<le> length b"
  "decode_timestamp b = Inr (b', v) \<Longrightarrow> length b' \<le> length b"
  "decode_uuid b = Inr (b', v) \<Longrightarrow> length b' \<le> length b"
  "decode_binary_small b = Inr (b', v) \<Longrightarrow> length b' \<le> length b"
  "decode_binary_large b = Inr (b', v) \<Longrightarrow> length b' \<le> length b"
  "decode_string_small b = Inr (b', v) \<Longrightarrow> length b' \<le> length b"
  "decode_string_large b = Inr (b', v) \<Longrightarrow> length b' \<le> length b"
  "decode_symbol_small b = Inr (b', v) \<Longrightarrow> length b' \<le> length b"
  "decode_symbol_large b = Inr (b', v) \<Longrightarrow> length b' \<le> length b"
  by (auto simp: decode_null_def decode_true_def decode_false_def decode_zero_def
      decode_empty_def decode_boolean_def decode_ubyte_def decode_ushort_def
      decode_uint_small_def decode_uint_large_def decode_ulong_small_def
      decode_ulong_large_def decode_byte_def decode_short_def decode_int_small_def
      decode_int_large_def decode_long_small_def decode_long_large_def decode_float_def
      decode_double_def decode_timestamp_def decode_uuid_def decode_binary_small_def
      decode_binary_large_def decode_string_small_def decode_string_large_def
      decode_symbol_small_def decode_symbol_large_def Let_def
      split: if_splits sum.splits)

lemma compound_shrink:
  assumes "shrinking dec"
  shows "decode_described dec b = Inr (b', v) \<Longrightarrow> length b' \<le> length b"
    and "decode_list_small dec b = Inr (b', v) \<Longrightarrow> length b' \<le> length b"
    and "decode_list_large dec b = Inr (b', v) \<Longrightarrow> length b' \<le> length b"
    and "decode_map_small dec b = Inr (b', v) \<Longrightarrow> length b' \<le> length b"
    and "decode_map_large dec b = Inr (b', v) \<Longrightarrow> length b' \<le> length b"
    and "decode_array_small dec b = Inr (b', v) \<Longrightarrow> length b' \<le> length b"
    and "decode_array_large dec b = Inr (b', v) \<Longrightarrow> length b' \<le> length b"
proof -
  note sh = shrinkingD [OF assms] decode_values_length [OF assms]
    decode_pairs_length [OF assms] decode_elements_length [OF assms]
  show "decode_described dec b = Inr (b', v) \<Longrightarrow> length b' \<le> length b"
    by (auto simp: decode_described_def split: if_splits sum.splits option.splits dest!: sh)
  show "decode_list_small dec b = Inr (b', v) \<Longrightarrow> length b' \<le> length b"
    by (auto simp: decode_list_small_def split: if_splits sum.splits dest!: sh)
  show "decode_list_large dec b = Inr (b', v) \<Longrightarrow> length b' \<le> length b"
    by (auto simp: decode_list_large_def split: if_splits sum.splits dest!: sh)
  show "decode_map_small dec b = Inr (b', v) \<Longrightarrow> length b' \<le> length b"
    by (auto simp: decode_map_small_def split: if_splits sum.splits dest!: sh)
  show "decode_map_large dec b = Inr (b', v) \<Longrightarrow> length b' \<le> length b"
    by (auto simp: decode_map_large_def split: if_splits sum.splits dest!: sh)
  show "decode_array_small dec b = Inr (b', v) \<Longrightarrow> length b' \<le> length b"
    by (auto simp: decode_array_small_def split: if_splits sum.splits dest!: sh)
  show "decode_array_large dec b = Inr (b', v) \<Longrightarrow> length b' \<le> length b"
    by (auto simp: decode_array_large_def split: if_splits sum.splits dest!: sh)
qed

lemma shrinking_call: "shrinking (call d)"
proof (induction d)
  case 0
  show ?case by (simp add: shrinking_def)
next
  case (Suc d)
  note cs = compound_shrink [OF Suc] leaf_shrink
  show ?case
    unfolding shrinking_def
  proof (intro allI impI)
    fix c b b' v
    assume a: "call (Suc d) c b = Inr (b', v)"
    then obtain f where f: "DECODE_BY_CONSTRUCTOR (call d) ! unat c = Some f"
      and r: "f b = Inr (b', v)"
      by (auto split: option.splits)
    from f r show "length b' \<le> length b"
      by (auto simp: table_lookup [OF unat_byte_less] split: if_splits dest: cs)
  qed
qed

lemma call_length: "call d c b = Inr (b', v) \<Longrightarrow> length b' \<le> length b"
  using shrinking_call by (rule shrinkingD)


subsection \<open>Message payload and frames\<close>

text \<open>
  The \<^verbatim>\<open>if\<close>/\<^verbatim>\<open>elif\<close> chain of \<^verbatim>\<open>decode_payload\<close>. For descriptor 117 the
  source appends to \<^verbatim>\<open>message["data"]\<close> and, on KeyError, stores a fresh one-element
  list. A descriptor outside 112..120 assigns nothing.
\<close>

definition payload_assign :: "dict \<Rightarrow> nat \<Rightarrow> val \<Rightarrow> error + dict" where
  "payload_assign message descriptor value =
     (if descriptor = 112 then dict_setitem message (PyStr ''header'') value
      else if descriptor = 113 then dict_setitem message (PyStr ''delivery_annotations'') value
      else if descriptor = 114 then dict_setitem message (PyStr ''message_annotations'') value
      else if descriptor = 115 then dict_setitem message (PyStr ''properties'') value
      else if descriptor = 116 then dict_setitem message (PyStr ''application_properties'') value
      else if descriptor = 117 then
        (case dict_get message (PyStr ''data'') of
           None \<Rightarrow> dict_setitem message (PyStr ''data'') (PyList [value])
         | Some (PyList xs) \<Rightarrow> dict_setitem message (PyStr ''data'') (PyList (xs @ [value]))
         | Some other \<Rightarrow> Inl AttributeError)
      else if descriptor = 118 then dict_setitem message (PyStr ''sequence'') value
      else if descriptor = 119 then dict_setitem message (PyStr ''value'') value
      else if descriptor = 120 then dict_setitem message (PyStr ''footer'') value
      else Inr message)"

text \<open>
  \<^verbatim>\<open>while buffer:\<close> reads the descriptor at \<^verbatim>\<open>buffer[2]\<close>, decodes the body with the
  constructor at \<^verbatim>\<open>buffer[3]\<close> from \<^verbatim>\<open>buffer[4:]\<close>, and goes on with the window the
  body left.
\<close>

function payload_sections :: "nat \<Rightarrow> buffer \<Rightarrow> dict \<Rightarrow> error + dict" where
  "payload_sections d buffer message =
     (if buffer = [] then Inr message
      else if length buffer < 3 then Inl IndexError
      else let descriptor = unat (buffer ! 2)
           in if length buffer < 4 then Inl IndexError
              else case call d (buffer ! 3) (drop 4 buffer) of
                     Inl e \<Rightarrow> Inl e
                   | Inr (buffer', value) \<Rightarrow>
                       (case payload_assign message descriptor value of
                          Inl e \<Rightarrow> Inl e
                        | Inr message' \<Rightarrow> payload_sections d buffer' message'))"
  by pat_completeness auto
termination
proof (relation "measure (\<lambda>(d, buffer, message). length buffer)")
  show "wf (measure (\<lambda>(d, buffer, message). length buffer))"
    by simp
next
  fix d :: nat and buffer :: buffer and message :: dict
    and descriptor :: nat and r :: "buffer \<times> val" and buffer' :: buffer and v :: val
    and message' :: dict
  assume "\<not> length buffer < 4" and "call d (buffer ! 3) (drop 4 buffer) = Inr r"
    and "(buffer', v) = r"
  then have "length buffer' \<le> length (drop 4 buffer)"
    using call_length [of d "buffer ! 3" "drop 4 buffer" buffer' v] by simp
  with \<open>\<not> length buffer < 4\<close>
  show "((d, buffer', message'), (d, buffer, message))
          \<in> measure (\<lambda>(d, buffer, message). length buffer)"
    by simp
qed

declare payload_sections.simps [simp del]

definition decode_payload :: "nat \<Rightarrow> buffer \<Rightarrow> error + val" where
  "decode_payload d buffer =
     (case payload_sections d buffer [] of
        Inl e \<Rightarrow> Inl e
      | Inr message \<Rightarrow> Inr (PyDict message))"

text \<open>
  \<^verbatim>\<open>decode_frame\<close> returns the pair of the performative code and the list of fields.
\<close>

definition decode_frame :: "nat \<Rightarrow> buffer \<Rightarrow> error + (nat \<times> val list)" where
  "decode_frame d data =
     (if length data < 3 then Inl IndexError
      else let frame_type = unat (data ! 2)
           in if length data < 6 then Inl IndexError
              else let count = unat (data ! 5)
                   in case decode_values (call d) count (drop 6 data) [] of
                        Inl e \<Rightarrow> Inl e
                      | Inr (buffer, fields) \<Rightarrow>
                          if frame_type = 20 then
                            (case decode_payload d buffer of
                               Inl e \<Rightarrow> Inl e
                             | Inr payload \<Rightarrow> Inr (frame_type, fields @ [payload]))
                          else Inr (frame_type, fields))"

section \<open>The link (\<^verbatim>\<open>uamqp/aio/_link_async.py\<close>)\<close>

text \<open>Python truthiness, as \<^verbatim>\<open>not x\<close> and \<^verbatim>\<open>if x:\<close> read it.\<close>

fun truthy :: "val \<Rightarrow> bool" where
  "truthy PyNone = False"
| "truthy (PyBool b) = b"
| "truthy (PyInt i) = (i \<noteq> 0)"
| "truthy (PyFloat NaN) = True"
| "truthy (PyFloat (Infinity s)) = True"
| "truthy (PyFloat (Finite s r)) = (r \<noteq> 0)"
| "truthy (PyBytes bs) = (bs \<noteq> [])"
| "truthy (PyStr s) = (s \<noteq> [])"
| "truthy (PyList xs) = (xs \<noteq> [])"
| "truthy (PyDict kvs) = (kvs \<noteq> [])"

text \<open>
  Modelled from the spec: the enumerations \<^verbatim>\<open>LinkState\<close> and
  \<^verbatim>\<open>LinkDeliverySettleReason\<close> of \<^verbatim>\<open>uamqp/constants.py\<close>, which is not among the
  sources. The states are the five the spec lists. The spec and the link name one settle
  reason, \<open>NotDelivered\<close>; the other members stand for the reasons that the link does
  not use.
\<close>

datatype LinkState = DETACHED | ATTACH_SENT | ATTACH_RCVD | ATTACHED | ERROR

datatype LinkDeliverySettleReason =
  DispositionReceived | Settled | NotDelivered | Timeout | Cancelled

text \<open>
  Modelled from the spec: a pending delivery is an object of the sender with a callback
  \<^verbatim>\<open>on_settled(reason, state)\<close>; it is known here by a number, and a call of its
  callback is the event \<open>OnSettled\<close>.
\<close>

type_synonym delivery = nat

text \<open>
  Modelled from the spec: \<^verbatim>\<open>DetachFrame(handle, closed, error)\<close> of
  \<^verbatim>\<open>uamqp/performatives.py\<close>, in that order.
\<close>

datatype detach_frame = DetachFrame int bool val

text \<open>
  Modelled from the spec: the session is a sink for outgoing frames
  (\<^verbatim>\<open>_outgoing_flow\<close>, \<^verbatim>\<open>_outgoing_detach\<close>), which takes the frame and returns.
  What the link does to its collaborators is recorded, oldest first, as a trace of events:
  a flow frame (a dict) or a detach frame handed to the session, or a callback of a pending
  delivery. The session holds the link, so when it is handed a detach frame it can read the
  link: the event of a detach frame carries, next to the frame, the value that
  \<^verbatim>\<open>_is_closed\<close> has at the moment of the call. A link that set the flag before it
  handed the frame over would leave \<open>True\<close> there.
\<close>

datatype event =
    SessionOutgoingFlow dict
  | SessionOutgoingDetach detach_frame bool
  | OnSettled delivery LinkDeliverySettleReason val

text \<open>
  Modelled from the spec: the attributes of an incoming \<^verbatim>\<open>AttachFrame\<close> that
  \<^verbatim>\<open>_incoming_attach\<close> reads. A field the peer omitted is \<^verbatim>\<open>None\<close>.
\<close>

record attach_frame =
  source :: val
  target :: val
  handle :: val
  max_message_size :: val
  offered_capabilities :: val
  properties :: "dict option"

text \<open>
  The attributes of \<^verbatim>\<open>Link\<close> that the methods below read or write, with the trace
  of what the link has done. The name, role, endpoints and settle modes of the link are
  set once by the constructor and are not touched by these methods.
\<close>

record link =
  state :: LinkState
  handle :: int
  remote_handle :: val
  link_credit :: int
  current_link_credit :: int
  initial_delivery_count :: int
  delivery_count :: int
  received_delivery_id :: val
  remote_max_message_size :: val
  properties :: "dict option"
  offered_capabilities :: val
  is_closed :: bool
  pending_deliveries :: "(val \<times> delivery) list"
  trace :: "event list"

text \<open>\<^verbatim>\<open>_set_state\<close> (logging and the cooperative yield leave the link as it is)\<close>

definition set_state :: "LinkState option \<Rightarrow> link \<Rightarrow> link" where
  "set_state new_state l = (case new_state of None \<Rightarrow> l | Some s \<Rightarrow> l\<lparr>state := s\<rparr>)"

text \<open>\<^verbatim>\<open>_outgoing_flow\<close>\<close>

definition outgoing_flow :: "link \<Rightarrow> link" where
  "outgoing_flow l =
     (let flow_frame =
        [(PyStr ''handle'', PyInt (link.handle l)),
         (PyStr ''delivery_count'', PyInt (delivery_count l)),
         (PyStr ''link_credit'', PyInt (current_link_credit l)),
         (PyStr ''available'', PyNone),
         (PyStr ''drain'', PyNone),
         (PyStr ''echo'', PyNone),
         (PyStr ''properties'', PyNone)]
      in l\<lparr>trace := trace l @ [SessionOutgoingFlow flow_frame]\<rparr>)"

text \<open>\<^verbatim>\<open>_evaluate_status\<close>\<close>

definition evaluate_status :: "link \<Rightarrow> link" where
  "evaluate_status l =
     (if current_link_credit l \<le> 0
      then outgoing_flow (l\<lparr>current_link_credit := link_credit l\<rparr>)
      else l)"

text \<open>
  \<^verbatim>\<open>_remove_pending_deliveries\<close>: one callback per value of the dict, in its order,
  all of them done when the task group is left; then the dict is replaced by an empty one.
\<close>

definition remove_pending_deliveries :: "link \<Rightarrow> link" where
  "remove_pending_deliveries l =
     l\<lparr>trace := trace l @
            map (\<lambda>delivery. OnSettled delivery NotDelivered PyNone)
              (map snd (pending_deliveries l)),
       pending_deliveries := []\<rparr>"

text \<open>\<^verbatim>\<open>self._session._outgoing_detach(detach_frame)\<close>\<close>

definition session_outgoing_detach :: "detach_frame \<Rightarrow> link \<Rightarrow> link" where
  "session_outgoing_detach detach_frame l =
     l\<lparr>trace := trace l @ [SessionOutgoingDetach detach_frame (is_closed l)]\<rparr>"

text \<open>
  \<^verbatim>\<open>_outgoing_detach\<close>: the frame is built and handed to the session; only then, and
  only for a closing detach, is \<^verbatim>\<open>_is_closed\<close> set.
\<close>

definition outgoing_detach :: "bool \<Rightarrow> val \<Rightarrow> link \<Rightarrow> link" where
  "outgoing_detach close err l =
     (let detach_frame = DetachFrame (link.handle l) close err;
          l' = session_outgoing_detach detach_frame l
      in if close then l'\<lparr>is_closed := True\<rparr> else l')"

text \<open>\<^verbatim>\<open>self.properties.update(frame.properties)\<close>\<close>

fun dict_update :: "dict \<Rightarrow> dict \<Rightarrow> dict" where
  "dict_update d [] = d"
| "dict_update d ((k, v) # kvs) = dict_update (dict_store d k v) kvs"

text \<open>
  A method of the link returns the exception it raised, if any, with the link as the
  method left it: what was assigned before a \<^verbatim>\<open>raise\<close> stays assigned.
\<close>

type_synonym outcome = "error option \<times> link"

text \<open>
  \<^verbatim>\<open>_incoming_attach\<close>. \<^verbatim>\<open>dict.update(None)\<close> raises TypeError (\<^verbatim>\<open>None\<close> is not
  iterable).
\<close>

definition incoming_attach :: "attach_frame \<Rightarrow> link \<Rightarrow> outcome" where
  "incoming_attach frame l =
     (if is_closed l then (Some (ValueError ''Invalid link''), l)
      else if \<not> truthy (attach_frame.source frame) \<or> \<not> truthy (attach_frame.target frame) then
        (Some (ValueError ''Invalid link''),
         set_state (Some DETACHED) (remove_pending_deliveries l))
      else
        let l1 = l\<lparr>remote_handle := attach_frame.handle frame,
                   remote_max_message_size := attach_frame.max_message_size frame,
                   offered_capabilities := attach_frame.offered_capabilities frame\<rparr>
        in case (case link.properties l1 of
                   None \<Rightarrow> Inr (l1\<lparr>properties := attach_frame.properties frame\<rparr>)
                 | Some own \<Rightarrow>
                     if own = [] then Inr (l1\<lparr>properties := attach_frame.properties frame\<rparr>)
                     else (case attach_frame.properties frame of
                             None \<Rightarrow> Inl TypeError_not_iterable
                           | Some theirs \<Rightarrow>
                               Inr (l1\<lparr>properties := Some (dict_update own theirs)\<rparr>))) of
             Inl e \<Rightarrow> (Some e, l1)
           | Inr l2 \<Rightarrow>
               if state l2 = DETACHED then (None, set_state (Some ATTACH_RCVD) l2)
               else if state l2 = ATTACH_SENT then (None, set_state (Some ATTACHED) l2)
               else (None, l2))"

text \<open>\<^verbatim>\<open>detach\<close>\<close>

definition detach :: "bool \<Rightarrow> val \<Rightarrow> link \<Rightarrow> outcome" where
  "detach close err l =
     (if is_closed l then (Some (ValueError ''Link already closed.''), l)
      else
        let l1 = remove_pending_deliveries l
        in if state l1 \<in> set [ATTACH_SENT, ATTACH_RCVD] then
             (None, set_state (Some DETACHED) (outgoing_detach close err l1))
           else if state l1 = ATTACHED then
             (None, set_state (Some ATTACH_SENT) (outgoing_detach close err l1))
           else (None, l1))"

section \<open>The map loop in the words of the specification\<close>

text \<open>
  The specification describes the loop of a map as a number of key/value pairs, each pair
  a key and then a value. \<open>decode_n_pairs dec n\<close> decodes exactly \<open>n\<close> such pairs. It is
  not taken from the source: the loop of the source is \<open>decode_pairs\<close>, and the two are
  compared below.
\<close>

fun decode_n_pairs :: "decoder \<Rightarrow> nat \<Rightarrow> buffer \<Rightarrow> dict \<Rightarrow> error + (buffer \<times> dict)" where
  "decode_n_pairs dec 0 buffer kvs = Inr (buffer, kvs)"
| "decode_n_pairs dec (Suc n) buffer kvs =
     (if buffer = [] then Inl IndexError
      else case dec (buffer ! 0) (drop 1 buffer) of
        Inl e \<Rightarrow> Inl e
      | Inr (buffer1, key) \<Rightarrow>
         (if buffer1 = [] then Inl IndexError
          else case dec (buffer1 ! 0) (drop 1 buffer1) of
            Inl e \<Rightarrow> Inl e
          | Inr (buffer2, v) \<Rightarrow>
             (case dict_setitem kvs key v of
                Inl e \<Rightarrow> Inl e
              | Inr kvs' \<Rightarrow> decode_n_pairs dec n buffer2 kvs')))"

section \<open>A link to run the methods on\<close>

text \<open>Attached, out of credit, with two pending deliveries.\<close>

definition example_link :: link where
  "example_link =
     \<lparr>state = ATTACHED, handle = 2, remote_handle = PyInt 3, link_credit = 300,
      current_link_credit = 0, initial_delivery_count = 7, delivery_count = 9,
      received_delivery_id = PyNone, remote_max_message_size = PyInt 65536,
      properties = None, offered_capabilities = PyNone, is_closed = False,
      pending_deliveries = [(PyBytes [1], 11), (PyBytes [2], 12)], trace = []\<rparr>"

section \<open>Properties\<close>

subsection \<open>Auxiliary facts\<close>

lemma be_uint_single: "be_uint [n] = unat n"
  by (simp add: be_uint_def)

lemma decode_values_count:
  "decode_values dec n b vs = Inr (b', vs') \<Longrightarrow> length vs' = length vs + n"
proof (induction n arbitrary: b vs)
  case 0
  then show ?case by simp
next
  case (Suc n)
  from Suc.prems obtain b1 v1 where
    rest: "decode_values dec n b1 (vs @ [v1]) = Inr (b', vs')"
    by (auto split: if_splits sum.splits)
  from Suc.IH [OF rest] show ?case by simp
qed

lemma decode_values_pos:
  "0 < n \<Longrightarrow> decode_values dec n buffer vs =
     (if buffer = [] then Inl IndexError
      else case dec (buffer ! 0) (drop 1 buffer) of
             Inl e \<Rightarrow> Inl e
           | Inr (buffer', v) \<Rightarrow> decode_values dec (n - 1) buffer' (vs @ [v]))"
  by (cases n) (auto split: sum.splits)

lemma decode_elements_pos:
  "0 < n \<Longrightarrow> decode_elements dec s n buffer vs =
     (case dec s buffer of
        Inl e \<Rightarrow> Inl e
      | Inr (buffer', v) \<Rightarrow> decode_elements dec s (n - 1) buffer' (vs @ [v]))"
  by (cases n) (auto split: sum.splits)

lemma decode_pairs_rounds:
  "decode_pairs dec i count buffer kvs =
     decode_n_pairs dec ((count - i + 1) div 2) buffer kvs"
proof (induction dec i count buffer kvs rule: decode_pairs.induct)
  case (1 dec i count buffer kvs)
  show ?case
  proof (cases "i < count")
    case False
    then show ?thesis by (simp add: decode_pairs.simps)
  next
    case True
    then have n: "(count - i + 1) div 2 = Suc ((count - (i + 2) + 1) div 2)"
      by arith
    from True "1.IH" have IH:
      "\<And>b1 k b2 v kvs'. buffer \<noteq> [] \<Longrightarrow> dec (buffer ! 0) (drop 1 buffer) = Inr (b1, k) \<Longrightarrow>
         b1 \<noteq> [] \<Longrightarrow> dec (b1 ! 0) (drop 1 b1) = Inr (b2, v) \<Longrightarrow>
         dict_setitem kvs k v = Inr kvs' \<Longrightarrow>
         decode_pairs dec (i + 2) count b2 kvs' =
           decode_n_pairs dec ((count - (i + 2) + 1) div 2) b2 kvs'"
      by blast
    have "decode_pairs dec i count buffer kvs =
            decode_n_pairs dec (Suc ((count - (i + 2) + 1) div 2)) buffer kvs"
      using IH True
      by (subst decode_pairs.simps) (auto split: sum.splits)
    with n show ?thesis by simp
  qed
qed

lemma rounds_even_odd:
  "((n::nat) + 1) div 2 = (if even n then n div 2 else n div 2 + 1)"
  by presburger

lemma decode_n_pairs_pos:
  "0 < n \<Longrightarrow> decode_n_pairs dec n buffer kvs =
     (if buffer = [] then Inl IndexError
      else case dec (buffer ! 0) (drop 1 buffer) of
        Inl e \<Rightarrow> Inl e
      | Inr (buffer1, key) \<Rightarrow>
         (if buffer1 = [] then Inl IndexError
          else case dec (buffer1 ! 0) (drop 1 buffer1) of
            Inl e \<Rightarrow> Inl e
          | Inr (buffer2, v) \<Rightarrow>
             (case dict_setitem kvs key v of
                Inl e \<Rightarrow> Inl e
              | Inr kvs' \<Rightarrow> decode_n_pairs dec (n - 1) buffer2 kvs')))"
  by (cases n) (auto split: sum.splits)

lemma decode_n_pairs_last:
  "decode_n_pairs dec (Suc k) b kvs =
     (case decode_n_pairs dec k b kvs of
        Inl e \<Rightarrow> Inl e
      | Inr (b1, kvs1) \<Rightarrow> decode_n_pairs dec (Suc 0) b1 kvs1)"
proof (induction k arbitrary: b kvs)
  case 0
  show ?case by simp
next
  case (Suc k)
  show ?case
  proof (cases "b = []")
    case True
    then show ?thesis by simp
  next
    case ne: False
    show ?thesis
    proof (cases "dec (b ! 0) (drop 1 b)")
      case (Inl e)
      with ne show ?thesis by simp
    next
      case (Inr r)
      obtain b1 key where r: "r = (b1, key)" by (cases r)
      show ?thesis
      proof (cases "b1 = []")
        case True
        with ne Inr r show ?thesis by simp
      next
        case ne1: False
        show ?thesis
        proof (cases "dec (b1 ! 0) (drop 1 b1)")
          case (Inl e)
          with ne ne1 Inr r show ?thesis by simp
        next
          case Inr2: (Inr r2)
          obtain b2 v where r2: "r2 = (b2, v)" by (cases r2)
          show ?thesis
          proof (cases "dict_setitem kvs key v")
            case (Inl e)
            with ne ne1 Inr r Inr2 r2 show ?thesis by simp
          next
            case Inr3: (Inr kvs')
            have two: "decode_n_pairs dec (Suc (Suc k)) b kvs = decode_n_pairs dec (Suc k) b2 kvs'"
              using ne ne1 Inr r Inr2 r2 Inr3 by (subst decode_n_pairs.simps(2)) simp
            have one: "decode_n_pairs dec (Suc k) b kvs = decode_n_pairs dec k b2 kvs'"
              using ne ne1 Inr r Inr2 r2 Inr3 by (subst decode_n_pairs.simps(2)) simp
            show ?thesis
              unfolding two one by (rule Suc.IH)
          qed
        qed
      qed
    qed
  qed
qed

subsection \<open>The bound on the nesting depth\<close>

text \<open>
  \<open>call d\<close> gives out only when the decoders are nested deeper than \<open>d\<close>. Each nested
  call is on a strictly shorter window, so a bound above the length of the window is never
  used up, and a larger bound gives the same result.
\<close>

definition fuel_free :: "nat \<Rightarrow> decoder \<Rightarrow> bool" where
  "fuel_free m dec = (\<forall>c b. length b < m \<longrightarrow> dec c b \<noteq> Inl OutOfFuel)"

lemma fuel_freeD: "fuel_free m dec \<Longrightarrow> length b < m \<Longrightarrow> dec c b \<noteq> Inl OutOfFuel"
  unfolding fuel_free_def by blast

lemma decode_values_enough:
  "shrinking dec \<Longrightarrow> fuel_free m dec \<Longrightarrow> length b \<le> m \<Longrightarrow>
     decode_values dec n b vs \<noteq> Inl OutOfFuel"
proof (induction n arbitrary: b vs)
  case 0
  then show ?case by simp
next
  case (Suc n)
  show ?case
  proof (cases "b = []")
    case True
    then show ?thesis by simp
  next
    case False
    with Suc.prems(3) have lt: "length (drop 1 b) < m"
      by (cases b) auto
    show ?thesis
    proof (cases "dec (b ! 0) (drop 1 b)")
      case (Inl e)
      with fuel_freeD [OF Suc.prems(2) lt, of "b ! 0"] False show ?thesis by auto
    next
      case (Inr r)
      obtain b1 v1 where r: "r = (b1, v1)" by (cases r)
      from shrinkingD [OF Suc.prems(1) Inr [unfolded r]] lt have "length b1 \<le> m" by simp
      from Suc.IH [OF Suc.prems(1,2) this] False Inr r show ?thesis by simp
    qed
  qed
qed

lemma decode_elements_enough:
  "shrinking dec \<Longrightarrow> fuel_free m dec \<Longrightarrow> length b < m \<Longrightarrow>
     decode_elements dec s n b vs \<noteq> Inl OutOfFuel"
proof (induction n arbitrary: b vs)
  case 0
  then show ?case by simp
next
  case (Suc n)
  show ?case
  proof (cases "dec s b")
    case (Inl e)
    with fuel_freeD [OF Suc.prems(2,3), of s] show ?thesis by auto
  next
    case (Inr r)
    obtain b1 v1 where r: "r = (b1, v1)" by (cases r)
    from shrinkingD [OF Suc.prems(1) Inr [unfolded r]] Suc.prems(3) have "length b1 < m" by simp
    from Suc.IH [OF Suc.prems(1,2) this] Inr r show ?thesis by simp
  qed
qed

lemma dict_setitem_fuel: "dict_setitem kvs k v \<noteq> Inl OutOfFuel"
  by (simp add: dict_setitem_def)

lemma decode_n_pairs_enough:
  "shrinking dec \<Longrightarrow> fuel_free m dec \<Longrightarrow> length b \<le> m \<Longrightarrow>
     decode_n_pairs dec n b kvs \<noteq> Inl OutOfFuel"
proof (induction n arbitrary: b kvs)
  case 0
  then show ?case by simp
next
  case (Suc n)
  note sh = shrinkingD [OF Suc.prems(1)] and ff = fuel_freeD [OF Suc.prems(2)]
  show ?case
  proof (cases "b = []")
    case True
    then show ?thesis by simp
  next
    case False
    with Suc.prems(3) have lt: "length (drop 1 b) < m"
      by (cases b) auto
    show ?thesis
    proof (cases "dec (b ! 0) (drop 1 b)")
      case (Inl e)
      with ff [OF lt, of "b ! 0"] False show ?thesis by auto
    next
      case (Inr r)
      obtain b1 k where r: "r = (b1, k)" by (cases r)
      from sh [OF Inr [unfolded r]] lt have l1: "length b1 < m" by simp
      show ?thesis
      proof (cases "b1 = []")
        case True
        with False Inr r show ?thesis by simp
      next
        case ne1: False
        from l1 have lt1: "length (drop 1 b1) < m" by simp
        show ?thesis
        proof (cases "dec (b1 ! 0) (drop 1 b1)")
          case (Inl e)
          with ff [OF lt1, of "b1 ! 0"] False ne1 Inr r show ?thesis by auto
        next
          case Inr2: (Inr r2)
          obtain b2 v where r2: "r2 = (b2, v)" by (cases r2)
          from sh [OF Inr2 [unfolded r2]] lt1 have "length b2 \<le> m" by simp
          from Suc.IH [OF Suc.prems(1,2) this] False ne1 Inr r Inr2 r2
          show ?thesis
            by (auto split: sum.splits simp: dict_setitem_def)
        qed
      qed
    qed
  qed
qed

lemma leaf_fuel:
  "decode_null b \<noteq> Inl OutOfFuel"
  "decode_true b \<noteq> Inl OutOfFuel"
  "decode_false b \<noteq> Inl OutOfFuel"
  "decode_zero b \<noteq> Inl OutOfFuel"
  "decode_empty b \<noteq> Inl OutOfFuel"
  "decode_boolean b \<noteq> Inl OutOfFuel"
  "decode_ubyte b \<noteq> Inl OutOfFuel"
  "decode_ushort b \<noteq> Inl OutOfFuel"
  "decode_uint_small b \<noteq> Inl OutOfFuel"
  "decode_uint_large b \<noteq> Inl OutOfFuel"
  "decode_ulong_small b \<noteq> Inl OutOfFuel"
  "decode_ulong_large b \<noteq> Inl OutOfFuel"
  "decode_byte b \<noteq> Inl OutOfFuel"
  "decode_short b \<noteq> Inl OutOfFuel"
  "decode_int_small b \<noteq> Inl OutOfFuel"
  "decode_int_large b \<noteq> Inl OutOfFuel"
  "decode_long_small b \<noteq> Inl OutOfFuel"
  "decode_long_large b \<noteq> Inl OutOfFuel"
  "decode_float b \<noteq> Inl OutOfFuel"
  "decode_double b \<noteq> Inl OutOfFuel"
  "decode_timestamp b \<noteq> Inl OutOfFuel"
  "decode_uuid b \<noteq> Inl OutOfFuel"
  "decode_binary_small b \<noteq> Inl OutOfFuel"
  "decode_binary_large b \<noteq> Inl OutOfFuel"
  "decode_string_small b \<noteq> Inl OutOfFuel"
  "decode_string_large b \<noteq> Inl OutOfFuel"
  "decode_symbol_small b \<noteq> Inl OutOfFuel"
  "decode_symbol_large b \<noteq> Inl OutOfFuel"
  by (auto simp: decode_null_def decode_true_def decode_false_def decode_zero_def
      decode_empty_def decode_boolean_def decode_ubyte_def decode_ushort_def
      decode_uint_small_def decode_uint_large_def decode_ulong_small_def
      decode_ulong_large_def decode_byte_def decode_short_def decode_int_small_def
      decode_int_large_def decode_long_small_def decode_long_large_def decode_float_def
      decode_double_def decode_timestamp_def decode_uuid_def decode_binary_small_def
      decode_binary_large_def decode_string_small_def decode_string_large_def
      decode_symbol_small_def decode_symbol_large_def Let_def unpack_unsigned_def
      unpack_signed_def unpack_float_def
      split: if_splits sum.splits)

lemma compound_fuel:
  assumes sh: "shrinking dec" and ff: "fuel_free m dec" and le: "length b \<le> m"
  shows "decode_described dec b \<noteq> Inl OutOfFuel"
    and "decode_list_small dec b \<noteq> Inl OutOfFuel"
    and "decode_list_large dec b \<noteq> Inl OutOfFuel"
    and "decode_map_small dec b \<noteq> Inl OutOfFuel"
    and "decode_map_large dec b \<noteq> Inl OutOfFuel"
    and "decode_array_small dec b \<noteq> Inl OutOfFuel"
    and "decode_array_large dec b \<noteq> Inl OutOfFuel"
proof -
  have vals: "\<And>k n vs. decode_values dec n (drop k b) vs \<noteq> Inl OutOfFuel"
    using decode_values_enough [OF sh ff] le by simp
  have pairs: "\<And>k n kvs. decode_n_pairs dec n (drop k b) kvs \<noteq> Inl OutOfFuel"
    using decode_n_pairs_enough [OF sh ff] le by simp
  have elems: "\<And>k s n vs. 0 < k \<Longrightarrow> k \<le> length b \<Longrightarrow>
      decode_elements dec s n (drop k b) vs \<noteq> Inl OutOfFuel"
    using decode_elements_enough [OF sh ff] le by simp
  have inner: "\<And>k c. 0 < k \<Longrightarrow> k \<le> length b \<Longrightarrow> dec c (drop k b) \<noteq> Inl OutOfFuel"
    using fuel_freeD [OF ff] le by simp
  show "decode_described dec b \<noteq> Inl OutOfFuel"
    using inner [of 3 "b ! 2"]
    by (auto simp: decode_described_def split: sum.splits option.splits)
  show "decode_list_small dec b \<noteq> Inl OutOfFuel"
    using vals [of "unat (b ! 1)" 2 "[]"]
    by (auto simp: decode_list_small_def split: sum.splits)
  show "decode_list_large dec b \<noteq> Inl OutOfFuel"
    using vals [of _ 8 "[]"]
    by (auto simp: decode_list_large_def unpack_unsigned_def split: sum.splits if_splits)
  show "decode_map_small dec b \<noteq> Inl OutOfFuel"
    using pairs [of _ 2 "[]"]
    by (auto simp: decode_map_small_def decode_pairs_rounds split: sum.splits)
  show "decode_map_large dec b \<noteq> Inl OutOfFuel"
    using pairs [of _ 8 "[]"]
    by (auto simp: decode_map_large_def decode_pairs_rounds unpack_unsigned_def
        split: sum.splits if_splits)
  show "decode_array_small dec b \<noteq> Inl OutOfFuel"
    using elems [of 3 "b ! 2" "unat (b ! 1)" "[]"]
    by (auto simp: decode_array_small_def split: sum.splits)
  show "decode_array_large dec b \<noteq> Inl OutOfFuel"
    using elems [of 9 "b ! 8" _ "[]"]
    by (auto simp: decode_array_large_def unpack_unsigned_def split: sum.splits if_splits)
qed

lemma fuel_free_call: "fuel_free d (call d)"
proof (induction d)
  case 0
  show ?case by (simp add: fuel_free_def)
next
  case (Suc d)
  show ?case
    unfolding fuel_free_def
  proof (intro allI impI)
    fix c :: byte and b :: buffer
    assume "length b < Suc d"
    then have le: "length b \<le> d" by simp
    note cf = compound_fuel [OF shrinking_call Suc le] leaf_fuel
    show "call (Suc d) c b \<noteq> Inl OutOfFuel"
      by (simp add: table_lookup [OF unat_byte_less] cf)
  qed
qed

lemma call_enough_fuel: "length b < d \<Longrightarrow> call d c b \<noteq> Inl OutOfFuel"
  using fuel_free_call by (rule fuel_freeD)

definition agrees :: "decoder \<Rightarrow> decoder \<Rightarrow> bool" where
  "agrees dec dec' = (\<forall>c b. dec c b \<noteq> Inl OutOfFuel \<longrightarrow> dec' c b = dec c b)"

lemma agreesD: "agrees dec dec' \<Longrightarrow> dec c b \<noteq> Inl OutOfFuel \<Longrightarrow> dec' c b = dec c b"
  unfolding agrees_def by blast

lemma decode_values_agree:
  "agrees dec dec' \<Longrightarrow> decode_values dec n b vs \<noteq> Inl OutOfFuel \<Longrightarrow>
     decode_values dec' n b vs = decode_values dec n b vs"
proof (induction n arbitrary: b vs)
  case 0
  then show ?case by simp
next
  case (Suc n)
  show ?case
  proof (cases "b = []")
    case True
    then show ?thesis by simp
  next
    case False
    with Suc.prems(2) have "dec (b ! 0) (drop 1 b) \<noteq> Inl OutOfFuel"
      by auto
    from agreesD [OF Suc.prems(1) this] have same: "dec' (b ! 0) (drop 1 b) = dec (b ! 0) (drop 1 b)" .
    show ?thesis
    proof (cases "dec (b ! 0) (drop 1 b)")
      case (Inl e)
      with same False show ?thesis by simp
    next
      case (Inr r)
      obtain b1 v1 where r: "r = (b1, v1)" by (cases r)
      from Suc.prems(2) False Inr r have "decode_values dec n b1 (vs @ [v1]) \<noteq> Inl OutOfFuel"
        by simp
      from Suc.IH [OF Suc.prems(1) this] same False Inr r show ?thesis by simp
    qed
  qed
qed

lemma decode_elements_agree:
  "agrees dec dec' \<Longrightarrow> decode_elements dec s n b vs \<noteq> Inl OutOfFuel \<Longrightarrow>
     decode_elements dec' s n b vs = decode_elements dec s n b vs"
proof (induction n arbitrary: b vs)
  case 0
  then show ?case by simp
next
  case (Suc n)
  from Suc.prems(2) have "dec s b \<noteq> Inl OutOfFuel"
    by auto
  from agreesD [OF Suc.prems(1) this] have same: "dec' s b = dec s b" .
  show ?case
  proof (cases "dec s b")
    case (Inl e)
    with same show ?thesis by simp
  next
    case (Inr r)
    obtain b1 v1 where r: "r = (b1, v1)" by (cases r)
    from Suc.prems(2) Inr r have "decode_elements dec s n b1 (vs @ [v1]) \<noteq> Inl OutOfFuel"
      by simp
    from Suc.IH [OF Suc.prems(1) this] same Inr r show ?thesis by simp
  qed
qed

lemma decode_n_pairs_agree:
  "agrees dec dec' \<Longrightarrow> decode_n_pairs dec n b kvs \<noteq> Inl OutOfFuel \<Longrightarrow>
     decode_n_pairs dec' n b kvs = decode_n_pairs dec n b kvs"
proof (induction n arbitrary: b kvs)
  case 0
  then show ?case by simp
next
  case (Suc n)
  note ag = agreesD [OF Suc.prems(1)]
  show ?case
  proof (cases "b = []")
    case True
    then show ?thesis by simp
  next
    case False
    with Suc.prems(2) have "dec (b ! 0) (drop 1 b) \<noteq> Inl OutOfFuel"
      by auto
    from ag [OF this] have same: "dec' (b ! 0) (drop 1 b) = dec (b ! 0) (drop 1 b)" .
    show ?thesis
    proof (cases "dec (b ! 0) (drop 1 b)")
      case (Inl e)
      with same False show ?thesis by simp
    next
      case (Inr r)
      obtain b1 k where r: "r = (b1, k)" by (cases r)
      show ?thesis
      proof (cases "b1 = []")
        case True
        with same False Inr r show ?thesis by simp
      next
        case ne1: False
        with Suc.prems(2) False Inr r have "dec (b1 ! 0) (drop 1 b1) \<noteq> Inl OutOfFuel"
          by auto
        from ag [OF this] have same1: "dec' (b1 ! 0) (drop 1 b1) = dec (b1 ! 0) (drop 1 b1)" .
        show ?thesis
        proof (cases "dec (b1 ! 0) (drop 1 b1)")
          case (Inl e)
          with same same1 False ne1 Inr r show ?thesis by simp
        next
          case Inr2: (Inr r2)
          obtain b2 v where r2: "r2 = (b2, v)" by (cases r2)
          show ?thesis
          proof (cases "dict_setitem kvs k v")
            case (Inl e)
            with same same1 False ne1 Inr r Inr2 r2 show ?thesis by simp
          next
            case Inr3: (Inr kvs')
            with Suc.prems(2) False ne1 Inr r Inr2 r2
            have "decode_n_pairs dec n b2 kvs' \<noteq> Inl OutOfFuel" by simp
            from Suc.IH [OF Suc.prems(1) this] same same1 False ne1 Inr r Inr2 r2 Inr3
            show ?thesis by simp
          qed
        qed
      qed
    qed
  qed
qed

lemma decode_described_agree:
  assumes ag: "agrees dec dec'" and nf: "decode_described dec b \<noteq> Inl OutOfFuel"
  shows "decode_described dec' b = decode_described dec b"
proof (cases "length b < 3")
  case True
  then show ?thesis by (simp add: decode_described_def)
next
  case False
  with nf have "dec (b ! 2) (drop 3 b) \<noteq> Inl OutOfFuel"
    by (auto simp: decode_described_def)
  from agreesD [OF ag this] show ?thesis by (simp add: decode_described_def)
qed

lemma decode_list_small_agree:
  assumes ag: "agrees dec dec'" and nf: "decode_list_small dec b \<noteq> Inl OutOfFuel"
  shows "decode_list_small dec' b = decode_list_small dec b"
proof (cases "length b < 2")
  case True
  then show ?thesis by (simp add: decode_list_small_def)
next
  case False
  with nf have "decode_values dec (unat (b ! 1)) (drop 2 b) [] \<noteq> Inl OutOfFuel"
    by (auto simp: decode_list_small_def)
  from decode_values_agree [OF ag this] show ?thesis by (simp add: decode_list_small_def)
qed

lemma decode_list_large_agree:
  assumes ag: "agrees dec dec'" and nf: "decode_list_large dec b \<noteq> Inl OutOfFuel"
  shows "decode_list_large dec' b = decode_list_large dec b"
proof (cases "unpack_unsigned 4 (take 4 (drop 4 b))")
  case (Inl e)
  then show ?thesis by (simp add: decode_list_large_def)
next
  case (Inr count)
  with nf have "decode_values dec (nat count) (drop 8 b) [] \<noteq> Inl OutOfFuel"
    by (auto simp: decode_list_large_def)
  from decode_values_agree [OF ag this] Inr show ?thesis by (simp add: decode_list_large_def)
qed

lemma decode_map_small_agree:
  assumes ag: "agrees dec dec'" and nf: "decode_map_small dec b \<noteq> Inl OutOfFuel"
  shows "decode_map_small dec' b = decode_map_small dec b"
proof (cases "length b < 2")
  case True
  then show ?thesis by (simp add: decode_map_small_def)
next
  case False
  with nf have "decode_n_pairs dec ((unat (b ! 1) + 1) div 2) (drop 2 b) [] \<noteq> Inl OutOfFuel"
    by (auto simp: decode_map_small_def decode_pairs_rounds)
  from decode_n_pairs_agree [OF ag this] show ?thesis
    by (simp add: decode_map_small_def decode_pairs_rounds)
qed

lemma decode_map_large_agree:
  assumes ag: "agrees dec dec'" and nf: "decode_map_large dec b \<noteq> Inl OutOfFuel"
  shows "decode_map_large dec' b = decode_map_large dec b"
proof (cases "unpack_unsigned 4 (take 4 (drop 4 b))")
  case (Inl e)
  then show ?thesis by (simp add: decode_map_large_def)
next
  case (Inr count)
  with nf have "decode_n_pairs dec ((nat count + 1) div 2) (drop 8 b) [] \<noteq> Inl OutOfFuel"
    by (auto simp: decode_map_large_def decode_pairs_rounds)
  from decode_n_pairs_agree [OF ag this] Inr show ?thesis
    by (simp add: decode_map_large_def decode_pairs_rounds)
qed

lemma decode_array_small_agree:
  assumes ag: "agrees dec dec'" and nf: "decode_array_small dec b \<noteq> Inl OutOfFuel"
  shows "decode_array_small dec' b = decode_array_small dec b"
proof (cases "length b < 3")
  case True
  then show ?thesis by (simp add: decode_array_small_def)
next
  case False
  with nf have "decode_elements dec (b ! 2) (unat (b ! 1)) (drop 3 b) [] \<noteq> Inl OutOfFuel"
    by (auto simp: decode_array_small_def)
  from decode_elements_agree [OF ag this] show ?thesis by (simp add: decode_array_small_def)
qed

lemma decode_array_large_agree:
  assumes ag: "agrees dec dec'" and nf: "decode_array_large dec b \<noteq> Inl OutOfFuel"
  shows "decode_array_large dec' b = decode_array_large dec b"
proof (cases "unpack_unsigned 4 (take 4 (drop 4 b))")
  case (Inl e)
  then show ?thesis by (simp add: decode_array_large_def)
next
  case (Inr count)
  show ?thesis
  proof (cases "length b < 9")
    case True
    with Inr show ?thesis by (simp add: decode_array_large_def)
  next
    case False
    with nf Inr have "decode_elements dec (b ! 8) (nat count) (drop 9 b) [] \<noteq> Inl OutOfFuel"
      by (auto simp: decode_array_large_def)
    from decode_elements_agree [OF ag this] Inr show ?thesis
      by (simp add: decode_array_large_def)
  qed
qed

lemmas compound_agree =
  decode_described_agree decode_list_small_agree decode_list_large_agree
  decode_map_small_agree decode_map_large_agree decode_array_small_agree
  decode_array_large_agree

lemma agrees_call_Suc: "agrees (call d) (call (Suc d))"
proof (induction d)
  case 0
  show ?case by (simp add: agrees_def)
next
  case (Suc d)
  note ca = compound_agree [OF Suc]
  show ?case
    unfolding agrees_def
  proof (intro allI impI)
    fix c :: byte and b :: buffer
    assume "call (Suc d) c b \<noteq> Inl OutOfFuel"
    then show "call (Suc (Suc d)) c b = call (Suc d) c b"
      by (auto simp: table_lookup [OF unat_byte_less] ca split: if_splits)
  qed
qed

lemma call_more_fuel:
  "call d c b \<noteq> Inl OutOfFuel \<Longrightarrow> call (d + k) c b = call d c b"
proof (induction k)
  case 0
  show ?case by simp
next
  case (Suc k)
  from Suc have "call (d + k) c b \<noteq> Inl OutOfFuel" by simp
  from agreesD [OF agrees_call_Suc this] Suc show ?case by simp
qed

lemma agrees_call: "d \<le> d' \<Longrightarrow> agrees (call d) (call d')"
  unfolding agrees_def using call_more_fuel [of d _ _ "d' - d"] by simp

lemma payload_assign_fuel: "payload_assign message descriptor v \<noteq> Inl OutOfFuel"
  by (auto simp: payload_assign_def dict_setitem_def split: option.splits val.splits)

lemma payload_sections_enough:
  "length buffer \<le> d \<Longrightarrow> payload_sections d buffer message \<noteq> Inl OutOfFuel"
proof (induction d buffer message rule: payload_sections.induct)
  case (1 d buffer message)
  show ?case
  proof (cases "length buffer < 4")
    case True
    then show ?thesis by (subst payload_sections.simps) (simp add: Let_def)
  next
    case False
    with "1.prems" have lt: "length (drop 4 buffer) < d" by simp
    have ne: "buffer \<noteq> []" "\<not> length buffer < 3" using False by auto
    show ?thesis
    proof (cases "call d (buffer ! 3) (drop 4 buffer)")
      case (Inl e)
      with call_enough_fuel [OF lt, of "buffer ! 3"] False ne show ?thesis
        by (subst payload_sections.simps) (auto simp: Let_def)
    next
      case (Inr r)
      obtain b1 v where r: "r = (b1, v)" by (cases r)
      from call_length [OF Inr [unfolded r]] lt have le1: "length b1 \<le> d" by simp
      show ?thesis
      proof (cases "payload_assign message (unat (buffer ! 2)) v")
        case Inl2: (Inl e)
        with payload_assign_fuel [of message "unat (buffer ! 2)" v] Inr r False ne show ?thesis
          by (subst payload_sections.simps) (auto simp: Let_def)
      next
        case Inr2: (Inr message')
        from "1.IH" [OF ne refl False Inr r [symmetric] Inr2 le1] Inr r Inr2 False ne
        show ?thesis
          by (subst payload_sections.simps) (simp add: Let_def)
      qed
    qed
  qed
qed

lemma payload_sections_more_fuel:
  "d \<le> d' \<Longrightarrow> payload_sections d buffer message \<noteq> Inl OutOfFuel \<Longrightarrow>
     payload_sections d' buffer message = payload_sections d buffer message"
proof (induction d buffer message rule: payload_sections.induct)
  case (1 d buffer message)
  show ?case
  proof (cases "length buffer < 4")
    case True
    then show ?thesis
      by (subst (1 2) payload_sections.simps) (simp add: Let_def)
  next
    case False
    then have ne: "buffer \<noteq> []" "\<not> length buffer < 3" by auto
    from "1.prems"(2) False ne have nf: "call d (buffer ! 3) (drop 4 buffer) \<noteq> Inl OutOfFuel"
      by (subst (asm) payload_sections.simps) (auto simp: Let_def)
    from agreesD [OF agrees_call [OF "1.prems"(1)] nf]
    have same: "call d' (buffer ! 3) (drop 4 buffer) = call d (buffer ! 3) (drop 4 buffer)" .
    show ?thesis
    proof (cases "call d (buffer ! 3) (drop 4 buffer)")
      case (Inl e)
      with same False ne show ?thesis
        by (subst (1 2) payload_sections.simps) (simp add: Let_def)
    next
      case (Inr r)
      obtain b1 v where r: "r = (b1, v)" by (cases r)
      show ?thesis
      proof (cases "payload_assign message (unat (buffer ! 2)) v")
        case Inl2: (Inl e)
        with same Inr r False ne show ?thesis
          by (subst (1 2) payload_sections.simps) (simp add: Let_def)
      next
        case Inr2: (Inr message')
        from "1.prems"(2) Inr r Inr2 False ne
        have "payload_sections d b1 message' \<noteq> Inl OutOfFuel"
          by (subst (asm) payload_sections.simps) (simp add: Let_def)
        from "1.IH" [OF ne refl False Inr r [symmetric] Inr2 "1.prems"(1) this]
          same Inr r Inr2 False ne
        show ?thesis
          by (subst (1 2) payload_sections.simps) (simp add: Let_def)
      qed
    qed
  qed
qed

lemma decode_frame_enough_fuel:
  assumes "length data \<le> d"
  shows "decode_frame d data \<noteq> Inl OutOfFuel"
proof (cases "length data < 6")
  case True
  then show ?thesis by (simp add: decode_frame_def Let_def)
next
  case False
  have ff: "fuel_free (length data) (call d)"
    unfolding fuel_free_def using call_enough_fuel assms by (meson less_le_trans)
  have v: "decode_values (call d) (unat (data ! 5)) (drop 6 data) [] \<noteq> Inl OutOfFuel"
    by (rule decode_values_enough [OF shrinking_call ff]) simp
  have p: "\<And>buffer fs. decode_values (call d) (unat (data ! 5)) (drop 6 data) [] = Inr (buffer, fs)
      \<Longrightarrow> payload_sections d buffer [] \<noteq> Inl OutOfFuel"
  proof -
    fix buffer fs
    assume "decode_values (call d) (unat (data ! 5)) (drop 6 data) [] = Inr (buffer, fs)"
    from decode_values_length [OF shrinking_call this] assms
    have "length buffer \<le> d" by simp
    then show "payload_sections d buffer [] \<noteq> Inl OutOfFuel"
      by (rule payload_sections_enough)
  qed
  from False v p show ?thesis
    by (auto simp: decode_frame_def decode_payload_def Let_def split: sum.splits)
qed

lemma decode_frame_more_fuel:
  assumes "d \<le> d'" and "decode_frame d data \<noteq> Inl OutOfFuel"
  shows "decode_frame d' data = decode_frame d data"
proof (cases "length data < 6")
  case True
  then show ?thesis by (simp add: decode_frame_def Let_def)
next
  case False
  from assms(2) False
  have v: "decode_values (call d) (unat (data ! 5)) (drop 6 data) [] \<noteq> Inl OutOfFuel"
    by (auto simp: decode_frame_def Let_def)
  note same = decode_values_agree [OF agrees_call [OF assms(1)] v]
  show ?thesis
  proof (cases "decode_values (call d) (unat (data ! 5)) (drop 6 data) []")
    case (Inl e)
    with same False show ?thesis by (simp add: decode_frame_def Let_def)
  next
    case (Inr r)
    obtain buffer fs where r: "r = (buffer, fs)" by (cases r)
    show ?thesis
    proof (cases "unat (data ! 2) = 20")
      case ft: False
      with same Inr r False show ?thesis by (simp add: decode_frame_def Let_def)
    next
      case True
      with assms(2) Inr r False have "payload_sections d buffer [] \<noteq> Inl OutOfFuel"
        by (auto simp: decode_frame_def decode_payload_def Let_def split: sum.splits)
      from payload_sections_more_fuel [OF assms(1) this] same Inr r False True
      show ?thesis by (simp add: decode_frame_def decode_payload_def Let_def)
    qed
  qed
qed

lemma decode_frame_fuel:
  "length data \<le> d \<Longrightarrow> decode_frame d data = decode_frame (length data) data"
  using decode_frame_more_fuel [of "length data" d data]
    decode_frame_enough_fuel [of data "length data"] by simp

subsection \<open>The codec\<close>

text \<open>
  C1. The claim: a described value whose descriptor is a small-ulong in 35..39 decodes to a
  one-entry mapping from the name of the descriptor to the body, and any other descriptor
  gives the body unwrapped. \<^verbatim>\<open>_decode_described\<close> does not do that: it looks up byte 1 of
  the window that the body left, not the descriptor. The described value \<^verbatim>\<open>00 53 24 45\<close>
  (accepted, with an empty list as body) at the end of a window decodes to the bare empty
  list; the described value \<^verbatim>\<open>00 53 01 40\<close> (descriptor 1) followed by the bytes
  \<^verbatim>\<open>00 24\<close> decodes to a mapping named accepted; and the state field of a disposition
  frame that ends with \<^verbatim>\<open>00 53 24 45\<close> comes out unwrapped.
\<close>

theorem C1_described_reads_remaining_window:
  "call 2 0x00 [0x53, 0x24, 0x45] = Inr ([], PyList []) \<and>
   call 2 0x00 [0x53, 0x01, 0x40, 0x00, 0x24] =
     Inr ([0x00, 0x24], PyDict [(PyStr ''accepted'', PyNone)]) \<and>
   decode_frame 2
     [0x00, 0x53, 0x15, 0xC0, 0x09, 0x05, 0x41, 0x43, 0x40, 0x41, 0x00, 0x53, 0x24, 0x45] =
     Inr (21, [PyBool True, PyInt 0, PyNone, PyBool True, PyList []])"
  by (simp add: call_pos table_lookup decode_described_def decode_empty_def decode_null_def
      decode_true_def decode_zero_def COMPOSITES_def decode_frame_def decode_values_pos)

text \<open>
  C2. The claim: an unknown format code and a window shorter than the declared length
  each give a decode error that names the code or offset. The second half fails: the binary
  \<^verbatim>\<open>A0 05 01 02\<close> declares five bytes, has two, and decodes without error.
\<close>

theorem C2_truncated_binary_counterexample:
  "call 1 0xA0 [0x05, 0x01, 0x02] = Inr ([], PyBytes [0x01, 0x02])"
  by (simp add: call_pos table_lookup decode_binary_small_def tobytes_or_None_def)

text \<open>
  C2, as amended. For a format code that is not in the dispatch table the decoder raises an
  error and returns no window; the error is the TypeError of calling an empty slot, the
  same for every such code, and does not name the code. A binary, string or symbol whose
  window is shorter than its declared length is not an error: the decoder returns the bytes
  that are there (the absent value if there are none) and an empty remaining window.
\<close>

theorem C2_unknown_code_and_short_window:
  "(unat c \<notin> {0x00, 0x40, 0x41, 0x42, 0x43, 0x44, 0x45, 0x50, 0x51, 0x52, 0x53, 0x54, 0x55,
                0x56, 0x60, 0x61, 0x70, 0x71, 0x72, 0x80, 0x81, 0x82, 0x83, 0x98, 0xA0, 0xA1,
                0xA3, 0xB0, 0xB1, 0xB3, 0xC0, 0xC1, 0xD0, 0xD1, 0xE0, 0xF0} \<longrightarrow>
      call (Suc d) c buffer = Inl TypeError_not_callable) \<and>
   (c' \<in> {0xA0, 0xA1, 0xA3, 0xB0, 0xB1, 0xB3} \<and>
    length field = (if c' \<in> {0xA0, 0xA1, 0xA3} then 1 else 4) \<and>
    length rest < be_uint field \<longrightarrow>
      call (Suc d) c' (field @ rest) =
        Inr ([], if rest = [] then PyNone else PyBytes rest))"
proof (intro conjI impI)
  assume "unat c \<notin> {0x00, 0x40, 0x41, 0x42, 0x43, 0x44, 0x45, 0x50, 0x51, 0x52, 0x53, 0x54, 0x55,
                0x56, 0x60, 0x61, 0x70, 0x71, 0x72, 0x80, 0x81, 0x82, 0x83, 0x98, 0xA0, 0xA1,
                0xA3, 0xB0, 0xB1, 0xB3, 0xC0, 0xC1, 0xD0, 0xD1, 0xE0, 0xF0}"
  then show "call (Suc d) c buffer = Inl TypeError_not_callable"
    by (simp add: table_lookup [OF unat_byte_less])
next
  assume a: "c' \<in> {0xA0, 0xA1, 0xA3, 0xB0, 0xB1, 0xB3} \<and>
    length field = (if c' \<in> {0xA0, 0xA1, 0xA3} then 1 else 4) \<and>
    length rest < be_uint field"
  show "call (Suc d) c' (field @ rest) = Inr ([], if rest = [] then PyNone else PyBytes rest)"
  proof (cases "c' \<in> {0xA0, 0xA1, 0xA3}")
    case True
    with a obtain n where f: "field = [n]"
      by (cases field) auto
    from True a show ?thesis
      unfolding f
      by (auto simp: be_uint_single table_lookup decode_binary_small_def
          decode_string_small_def decode_symbol_small_def tobytes_or_None_def Let_def)
  next
    case False
    with a have c: "c' \<in> {0xB0, 0xB1, 0xB3}" and l: "length field = 4" by auto
    from c l a show ?thesis
      by (auto simp: table_lookup decode_binary_large_def decode_string_large_def
          decode_symbol_large_def tobytes_or_None_def unpack_unsigned_def)
  qed
qed

theorem C2_unknown_code_and_short_window_witness:
  "call 1 0x17 [0x01, 0x02] = Inl TypeError_not_callable \<and>
   call 1 0xB0 ([0, 0, 1, 0] @ [0x61, 0x62]) = Inr ([], PyBytes [0x61, 0x62])"
  using C2_unknown_code_and_short_window [of "0x17" 0 "[0x01, 0x02]" "0xB0" "[0, 0, 1, 0]" "[0x61, 0x62]"]
  by (simp add: be_uint_def)

text \<open>
  C3. The claim: a map (format codes 0xC1 and 0xD1) whose declared count is odd is
  rejected. It is not: the map \<^verbatim>\<open>C1 03 01 41 40\<close> declares one item and decodes to a
  mapping with one pair, the byte after the key read as its value.
\<close>

theorem C3_odd_count_counterexample:
  "call 2 0xC1 [0x03, 0x01, 0x41, 0x40] = Inr ([], PyDict [(PyBool True, PyNone)])"
  by (simp add: call_pos table_lookup decode_map_small_def decode_pairs_rounds
      decode_n_pairs_pos decode_true_def decode_null_def dict_setitem_def)

text \<open>
  C3, as amended. For a map with declared count \<open>n\<close> the decoder decodes key/value pairs,
  a key and then a value each: exactly \<open>n / 2\<close> pairs when \<open>n\<close> is even, and
  \<open>(n - 1) / 2 + 1\<close> pairs when \<open>n\<close> is odd. An odd count is not rejected as such: the
  last key takes as its value what the window holds next. When the window is empty after
  the key of the last pair, decoding fails with IndexError.
\<close>

theorem C3_map_rounds:
  "call (Suc d) 0xC1 (sz # n # rest) =
     map_sum id (\<lambda>(b, kvs). (b, PyDict kvs))
       (decode_n_pairs (call d)
          (if even (unat n) then unat n div 2 else unat n div 2 + 1) rest []) \<and>
   (length sz4 = 4 \<and> length n4 = 4 \<longrightarrow>
    call (Suc d) 0xD1 (sz4 @ n4 @ rest) =
     map_sum id (\<lambda>(b, kvs). (b, PyDict kvs))
       (decode_n_pairs (call d)
          (if even (be_uint n4) then be_uint n4 div 2 else be_uint n4 div 2 + 1) rest [])) \<and>
   (decode_n_pairs dec k rest [] = Inr (b1, kvs) \<and> b1 \<noteq> [] \<and>
    dec (b1 ! 0) (drop 1 b1) = Inr ([], key) \<longrightarrow>
      decode_n_pairs dec (k + 1) rest [] = Inl IndexError)"
proof (intro conjI impI)
  show "call (Suc d) 0xC1 (sz # n # rest) =
     map_sum id (\<lambda>(b, kvs). (b, PyDict kvs))
       (decode_n_pairs (call d)
          (if even (unat n) then unat n div 2 else unat n div 2 + 1) rest [])"
    by (auto simp: table_lookup decode_map_small_def decode_pairs_rounds
        rounds_even_odd [symmetric] split: sum.splits)
next
  assume "length sz4 = 4 \<and> length n4 = 4"
  then show "call (Suc d) 0xD1 (sz4 @ n4 @ rest) =
     map_sum id (\<lambda>(b, kvs). (b, PyDict kvs))
       (decode_n_pairs (call d)
          (if even (be_uint n4) then be_uint n4 div 2 else be_uint n4 div 2 + 1) rest [])"
    by (auto simp: table_lookup decode_map_large_def decode_pairs_rounds
        unpack_unsigned_def rounds_even_odd [symmetric] split: sum.splits)
next
  assume "decode_n_pairs dec k rest [] = Inr (b1, kvs) \<and> b1 \<noteq> [] \<and>
    dec (b1 ! 0) (drop 1 b1) = Inr ([], key)"
  then have "decode_n_pairs dec (Suc k) rest [] = Inl IndexError"
    by (subst decode_n_pairs_last) simp
  then show "decode_n_pairs dec (k + 1) rest [] = Inl IndexError"
    by simp
qed



theorem C3_map_rounds_witness:
  "call 2 0xC1 [0x05, 0x02, 0x41, 0x40] = Inr ([], PyDict [(PyBool True, PyNone)]) \<and>
   call 2 0xD1 ([0, 0, 0, 7] @ [0, 0, 0, 3] @ [0x41, 0x40, 0x42, 0x43, 0x44]) =
     Inr ([0x44], PyDict [(PyBool True, PyNone), (PyBool False, PyInt 0)]) \<and>
   decode_n_pairs (call 1) (1 + 1) [0x41, 0x40, 0x42] [] = Inl IndexError"
proof (intro conjI)
  show "call 2 0xC1 [0x05, 0x02, 0x41, 0x40] = Inr ([], PyDict [(PyBool True, PyNone)])"
    using C3_map_rounds [where d = 1 and sz = "0x05" and n = "0x02" and rest = "[0x41, 0x40]",
        THEN conjunct1]
    by (simp add: decode_n_pairs_pos call_pos table_lookup decode_true_def decode_null_def
        dict_setitem_def)
  show "call 2 0xD1 ([0, 0, 0, 7] @ [0, 0, 0, 3] @ [0x41, 0x40, 0x42, 0x43, 0x44]) =
     Inr ([0x44], PyDict [(PyBool True, PyNone), (PyBool False, PyInt 0)])"
    using C3_map_rounds [where d = 1 and rest = "[0x41, 0x40, 0x42, 0x43, 0x44]"
        and ?sz4.0 = "[0, 0, 0, 7]" and ?n4.0 = "[0, 0, 0, 3]", THEN conjunct2, THEN conjunct1]
    by (simp add: be_uint_def decode_n_pairs_pos call_pos table_lookup decode_true_def
        decode_false_def decode_null_def decode_zero_def dict_setitem_def py_eq_def)
  have h: "decode_n_pairs (call 1) 1 [0x41, 0x40, 0x42] [] = Inr ([0x42], [(PyBool True, PyNone)]) \<and>
      [0x42 :: byte] \<noteq> [] \<and>
      call 1 ([0x42] ! 0) (drop 1 [0x42]) = Inr ([], PyBool False)"
    by (simp add: decode_n_pairs_pos call_pos table_lookup decode_true_def decode_null_def
        decode_false_def dict_setitem_def)
  show "decode_n_pairs (call 1) (1 + 1) [0x41, 0x40, 0x42] [] = Inl IndexError"
    by (rule C3_map_rounds [where dec = "call 1" and k = 1 and rest = "[0x41, 0x40, 0x42]",
        THEN conjunct2, THEN conjunct2, rule_format, OF h])
qed

text \<open>
  C4. For a binary, string or symbol (format codes 0xA0, 0xA1, 0xA3 with a length field of
  one byte, 0xB0, 0xB1, 0xB3 with a big-endian length field of four bytes) whose declared
  length is zero, the decoder returns the absent value \<^verbatim>\<open>None\<close>, not an empty blob, and
  the remaining window starts right after the length field; for a declared length N that is
  not zero, with N bytes after the length field, it returns those N bytes and the window
  after them.
\<close>

theorem C4_length_prefixed_bytes:
  assumes code: "c \<in> {0xA0, 0xA1, 0xA3, 0xB0, 0xB1, 0xB3}"
    and field: "length field = (if c \<in> {0xA0, 0xA1, 0xA3} then 1 else 4)"
    and enough: "be_uint field \<le> length rest"
  shows "call (Suc d) c (field @ rest) =
           Inr (drop (be_uint field) rest,
                if be_uint field = 0 then PyNone else PyBytes (take (be_uint field) rest))"
proof (cases "c \<in> {0xA0, 0xA1, 0xA3}")
  case True
  with field obtain n where f: "field = [n]"
    by (cases field) auto
  from True enough show ?thesis
    unfolding f
    by (auto simp: be_uint_single table_lookup decode_binary_small_def decode_string_small_def
        decode_symbol_small_def tobytes_or_None_def Let_def)
next
  case False
  with code have c: "c \<in> {0xB0, 0xB1, 0xB3}" by auto
  from False field have l: "length field = 4" by simp
  from c l enough show ?thesis
    by (auto simp: table_lookup decode_binary_large_def decode_string_large_def
        decode_symbol_large_def tobytes_or_None_def unpack_unsigned_def)
qed

theorem C4_length_prefixed_bytes_witness:
  "call (Suc 0) 0xB1 ([0, 0, 0, 2] @ [0x68, 0x69, 0x21]) = Inr ([0x21], PyBytes [0x68, 0x69]) \<and>
   call (Suc 0) 0xA3 ([0] @ [0x41]) = Inr ([0x41], PyNone)"
  using C4_length_prefixed_bytes [of "0xB1" "[0, 0, 0, 2]" "[0x68, 0x69, 0x21]" 0]
    C4_length_prefixed_bytes [of "0xA3" "[0]" "[0x41]" 0]
  by (simp add: be_uint_def)

text \<open>
  C5. Whenever \<^verbatim>\<open>decode_frame\<close> returns, the frame type is the byte at offset 2 and the
  list of fields has as many elements as the byte at offset 5 declares, plus one when the
  frame type is 20 (transfer). When the declared fields decode, leaving the window
  \<open>buffer\<close>: for frame type 20 and a payload that decodes, the result is the declared
  fields followed by the mapping that \<^verbatim>\<open>decode_payload\<close> returns on \<open>buffer\<close>; for any
  other frame type the result is the declared fields.
\<close>

theorem C5_frame_fields:
  "(decode_frame d data = Inr (frame_type, fs') \<longrightarrow>
      frame_type = unat (data ! 2) \<and>
      length fs' = unat (data ! 5) + (if frame_type = 20 then 1 else 0)) \<and>
   (6 \<le> length data \<and>
    decode_values (call d) (unat (data ! 5)) (drop 6 data) [] = Inr (buffer, fs) \<longrightarrow>
      (unat (data ! 2) = 20 \<longrightarrow>
         (\<forall>payload. decode_payload d buffer = Inr payload \<longrightarrow>
            decode_frame d data = Inr (20, fs @ [payload]) \<and>
            length (fs @ [payload]) = unat (data ! 5) + 1 \<and>
            (\<exists>message. payload = PyDict message))) \<and>
      (unat (data ! 2) \<noteq> 20 \<longrightarrow>
         decode_frame d data = Inr (unat (data ! 2), fs) \<and>
         length fs = unat (data ! 5)))"
proof -
  have returned: "frame_type = unat (data ! 2) \<and>
      length fs' = unat (data ! 5) + (if frame_type = 20 then 1 else 0)"
    if r: "decode_frame d data = Inr (frame_type, fs')"
  proof -
    from r obtain buffer0 fs0 where
      v: "decode_values (call d) (unat (data ! 5)) (drop 6 data) [] = Inr (buffer0, fs0)"
      by (auto simp: decode_frame_def Let_def split: if_splits sum.splits)
    from decode_values_count [OF v] have "length fs0 = unat (data ! 5)"
      by simp
    with r v show ?thesis
      by (auto simp: decode_frame_def Let_def split: if_splits sum.splits)
  qed
  have n: "length fs = unat (data ! 5)"
    if "decode_values (call d) (unat (data ! 5)) (drop 6 data) [] = Inr (buffer, fs)"
    using decode_values_count [OF that] by simp
  have transfer: "decode_frame d data = Inr (20, fs @ [payload]) \<and>
      length (fs @ [payload]) = unat (data ! 5) + 1 \<and> (\<exists>message. payload = PyDict message)"
    if "6 \<le> length data"
      and "decode_values (call d) (unat (data ! 5)) (drop 6 data) [] = Inr (buffer, fs)"
      and "unat (data ! 2) = 20" and "decode_payload d buffer = Inr payload"
    for payload
    using that n [OF that(2)]
    by (auto simp: decode_frame_def decode_payload_def split: sum.splits)
  have other: "decode_frame d data = Inr (unat (data ! 2), fs) \<and> length fs = unat (data ! 5)"
    if "6 \<le> length data"
      and "decode_values (call d) (unat (data ! 5)) (drop 6 data) [] = Inr (buffer, fs)"
      and "unat (data ! 2) \<noteq> 20"
    using that n [OF that(2)] by (simp add: decode_frame_def)
  from returned transfer other show ?thesis
    by blast
qed


theorem C5_frame_fields_witness:
  "decode_frame 1
     [0x00, 0x53, 0x14, 0xC0, 0x03, 0x02, 0x43, 0x41, 0x00, 0x53, 0x77, 0xA1, 0x02, 0x68, 0x69] =
     Inr (20, [PyInt 0, PyBool True, PyDict [(PyStr ''value'', PyBytes [0x68, 0x69])]]) \<and>
   decode_frame 1 [0x00, 0x53, 0x13, 0xC0, 0x03, 0x02, 0x43, 0x41] =
     Inr (19, [PyInt 0, PyBool True])"
proof -
  let ?transfer = "[0x00, 0x53, 0x14, 0xC0, 0x03, 0x02, 0x43, 0x41, 0x00, 0x53, 0x77, 0xA1,
                    0x02, 0x68, 0x69] :: buffer"
  let ?flow = "[0x00, 0x53, 0x13, 0xC0, 0x03, 0x02, 0x43, 0x41] :: buffer"
  let ?section = "[0x00, 0x53, 0x77, 0xA1, 0x02, 0x68, 0x69] :: buffer"
  have f1: "6 \<le> length ?transfer \<and>
      decode_values (call 1) (unat (?transfer ! 5)) (drop 6 ?transfer) [] =
        Inr (?section, [PyInt 0, PyBool True])"
    by (simp add: decode_values_pos call_pos table_lookup decode_zero_def decode_true_def)
  have s1: "payload_sections 1 ?section [] = Inr [(PyStr ''value'', PyBytes [0x68, 0x69])]"
    apply (subst payload_sections.simps)
    apply (simp add: call_pos table_lookup decode_string_small_def tobytes_or_None_def
        payload_assign_def dict_setitem_def)
    apply (subst payload_sections.simps)
    apply simp
    done
  have p: "decode_payload 1 ?section = Inr (PyDict [(PyStr ''value'', PyBytes [0x68, 0x69])])"
    unfolding decode_payload_def s1 by simp
  have f2: "6 \<le> length ?flow \<and>
      decode_values (call 1) (unat (?flow ! 5)) (drop 6 ?flow) [] =
        Inr ([], [PyInt 0, PyBool True])"
    by (simp add: decode_values_pos call_pos table_lookup decode_zero_def decode_true_def)
  have t20: "unat (?transfer ! 2) = 20" and t19: "unat (?flow ! 2) \<noteq> 20"
    by simp_all
  note transfer = C5_frame_fields [where d = 1 and data = ?transfer, THEN conjunct2,
      rule_format, OF f1, THEN conjunct1, rule_format, OF t20 p, THEN conjunct1]
  note flow = C5_frame_fields [where d = 1 and data = ?flow, THEN conjunct2,
      rule_format, OF f2, THEN conjunct2, rule_format, OF t19, THEN conjunct1]
  from transfer flow show ?thesis by simp
qed

text \<open>
  C10. A transfer frame (performative code 20) whose bytes end with its declared fields
  still gets the synthetic payload field, and that field is the empty mapping:
  \<^verbatim>\<open>decode_payload\<close> of an empty buffer returns the empty mapping without error.
\<close>

theorem C10_transfer_without_payload_bytes:
  assumes "6 \<le> length data" and "unat (data ! 2) = 20"
    and "decode_values (call d) (unat (data ! 5)) (drop 6 data) [] = Inr ([], fs)"
  shows "decode_payload d [] = Inr (PyDict []) \<and>
         decode_frame d data = Inr (20, fs @ [PyDict []])"
  using assms by (simp add: decode_frame_def decode_payload_def payload_sections.simps)

theorem C10_transfer_without_payload_bytes_witness:
  "decode_frame 1 [0x00, 0x53, 0x14, 0xC0, 0x03, 0x02, 0x43, 0x41] =
     Inr (20, [PyInt 0, PyBool True, PyDict []])"
proof -
  have fs: "decode_values (call 1)
      (unat ([0x00, 0x53, 0x14, 0xC0, 0x03, 0x02, 0x43, 0x41 :: byte] ! 5))
      (drop 6 [0x00, 0x53, 0x14, 0xC0, 0x03, 0x02, 0x43, 0x41]) [] =
        Inr ([], [PyInt 0, PyBool True])"
    by (simp add: decode_values_pos call_pos table_lookup decode_zero_def decode_true_def)
  from C10_transfer_without_payload_bytes [OF _ _ fs]
  show ?thesis by simp
qed


subsection \<open>The link\<close>

text \<open>
  C6. After a pass of \<^verbatim>\<open>_evaluate_status\<close>: if \<open>current_link_credit\<close> was at most 0
  before the pass, it is reset to the configured \<open>link_credit\<close> and exactly one flow frame
  is handed to the session, carrying the handle, the delivery count, the link credit after
  the reset, and \<^verbatim>\<open>None\<close> for available, drain, echo and properties; otherwise no frame
  is emitted and the link is unchanged. When the configured \<open>link_credit\<close> is positive,
  \<open>current_link_credit\<close> is not negative after the pass.
\<close>

theorem C6_evaluate_status:
  "(current_link_credit l \<le> 0 \<longrightarrow>
      evaluate_status l =
        l\<lparr>current_link_credit := link_credit l,
          trace := trace l @
            [SessionOutgoingFlow
               [(PyStr ''handle'', PyInt (link.handle l)),
                (PyStr ''delivery_count'', PyInt (delivery_count l)),
                (PyStr ''link_credit'', PyInt (link_credit l)),
                (PyStr ''available'', PyNone),
                (PyStr ''drain'', PyNone),
                (PyStr ''echo'', PyNone),
                (PyStr ''properties'', PyNone)]]\<rparr>) \<and>
   (0 < current_link_credit l \<longrightarrow> evaluate_status l = l) \<and>
   (0 < link_credit l \<longrightarrow> 0 \<le> current_link_credit (evaluate_status l))"
  by (simp add: evaluate_status_def outgoing_flow_def)

theorem C6_evaluate_status_witness:
  "evaluate_status example_link =
     example_link\<lparr>current_link_credit := 300,
       trace :=
         [SessionOutgoingFlow
            [(PyStr ''handle'', PyInt 2),
             (PyStr ''delivery_count'', PyInt 9),
             (PyStr ''link_credit'', PyInt 300),
             (PyStr ''available'', PyNone),
             (PyStr ''drain'', PyNone),
             (PyStr ''echo'', PyNone),
             (PyStr ''properties'', PyNone)]]\<rparr> \<and>
   0 \<le> current_link_credit (evaluate_status example_link)"
  using C6_evaluate_status [of example_link]
  by (simp add: example_link_def)

text \<open>
  C7. On a link in state \<open>ATTACHED\<close> that is not closed, \<^verbatim>\<open>detach(close=True)\<close> returns
  without error and has done this, in this order: every pending delivery is notified with
  the reason \<open>NotDelivered\<close> and no state; a detach frame with \<open>closed = True\<close> is handed
  to the session, which finds the link not yet closed at that moment. Afterwards the map of
  pending deliveries is empty, \<open>is_closed\<close> is set, and the link is in state
  \<open>ATTACH_SENT\<close>. So \<open>is_closed\<close> is set after the frame is emitted, not before.
\<close>

theorem C7_detach_close_from_attached:
  assumes "state l = ATTACHED" and "\<not> is_closed l"
  shows "detach True err l =
           (None,
            l\<lparr>trace := trace l @
                  map (\<lambda>delivery. OnSettled delivery NotDelivered PyNone)
                    (map snd (pending_deliveries l)) @
                  [SessionOutgoingDetach (DetachFrame (link.handle l) True err) False],
              pending_deliveries := [],
              is_closed := True,
              state := ATTACH_SENT\<rparr>) \<and>
         is_closed (snd (detach True err l)) \<and>
         last (trace (snd (detach True err l))) =
           SessionOutgoingDetach (DetachFrame (link.handle l) True err) False"
  using assms
  by (simp add: detach_def remove_pending_deliveries_def outgoing_detach_def
      session_outgoing_detach_def set_state_def)

theorem C7_detach_close_from_attached_witness:
  "detach True PyNone example_link =
     (None,
      example_link\<lparr>trace :=
           [OnSettled 11 NotDelivered PyNone, OnSettled 12 NotDelivered PyNone,
            SessionOutgoingDetach (DetachFrame 2 True PyNone) False],
         pending_deliveries := [],
         is_closed := True,
         state := ATTACH_SENT\<rparr>)"
  using C7_detach_close_from_attached [of example_link PyNone]
  by (simp add: example_link_def)

text \<open>
  C8. An incoming attach frame whose source or target the peer omitted (\<^verbatim>\<open>None\<close>), on
  a link that is not closed: every pending delivery is notified with \<open>NotDelivered\<close> and
  the map is emptied, the state becomes \<open>DETACHED\<close>, the error of an invalid link is
  raised, and none of \<open>remote_handle\<close>, \<open>remote_max_message_size\<close>,
  \<open>offered_capabilities\<close> and \<open>properties\<close> is recorded.
\<close>

theorem C8_incoming_attach_without_endpoint:
  assumes "\<not> is_closed l"
    and "attach_frame.source frame = PyNone \<or> attach_frame.target frame = PyNone"
  shows "incoming_attach frame l =
           (Some (ValueError ''Invalid link''),
            l\<lparr>trace := trace l @
                  map (\<lambda>delivery. OnSettled delivery NotDelivered PyNone)
                    (map snd (pending_deliveries l)),
              pending_deliveries := [],
              state := DETACHED\<rparr>) \<and>
         remote_handle (snd (incoming_attach frame l)) = remote_handle l \<and>
         remote_max_message_size (snd (incoming_attach frame l)) = remote_max_message_size l \<and>
         link.offered_capabilities (snd (incoming_attach frame l)) = link.offered_capabilities l \<and>
         link.properties (snd (incoming_attach frame l)) = link.properties l"
  using assms
  by (auto simp: incoming_attach_def remove_pending_deliveries_def set_state_def)

theorem C8_incoming_attach_without_endpoint_witness:
  "incoming_attach
     \<lparr>source = PyNone, target = PyList [PyBytes [0x71]], handle = PyInt 5,
      max_message_size = PyInt 1024, offered_capabilities = PyNone,
      properties = Some [(PyBytes [0x6B], PyInt 1)]\<rparr>
     example_link =
     (Some (ValueError ''Invalid link''),
      example_link\<lparr>trace :=
           [OnSettled 11 NotDelivered PyNone, OnSettled 12 NotDelivered PyNone],
         pending_deliveries := [],
         state := DETACHED\<rparr>)"
  using C8_incoming_attach_without_endpoint [of example_link
      "\<lparr>source = PyNone, target = PyList [PyBytes [0x71]], handle = PyInt 5,
        max_message_size = PyInt 1024, offered_capabilities = PyNone,
        properties = Some [(PyBytes [0x6B], PyInt 1)]\<rparr>"]
  by (simp add: example_link_def)

text \<open>
  C9. On a link whose \<open>is_closed\<close> flag is set, \<^verbatim>\<open>detach\<close> raises
  \<^verbatim>\<open>ValueError("Link already closed.")\<close> before anything else: the state, the pending
  deliveries, the counters and the trace of the link are as before the call.
\<close>

theorem C9_detach_on_closed_link:
  assumes "is_closed l"
  shows "detach close err l = (Some (ValueError ''Link already closed.''), l)"
  using assms by (simp add: detach_def)

theorem C9_detach_on_closed_link_witness:
  "detach True PyNone (example_link\<lparr>is_closed := True\<rparr>) =
     (Some (ValueError ''Link already closed.''), example_link\<lparr>is_closed := True\<rparr>)"
  using C9_detach_on_closed_link [of "example_link\<lparr>is_closed := True\<rparr>" True PyNone]
  by simp


end
